theory Spec2Isabelle
  imports Main "HOL-Library.Word"
begin

unbundle bit_operations_syntax

section \<open>The bitmap pool allocator of src/system/SystemPoolNonHeapBitmapAllocator.cpp\<close>

subsection \<open>Data model\<close>

text \<open>
  A \<open>void *\<close> is a byte address, \<open>nullptr\<close> is address 0. \<open>size_t\<close> values (capacity,
  element size, word and bit indices) are natural numbers: the bitmap and the storage
  buffer exist in memory, so none of the index computations of the class can wrap.
\<close>

type_synonym ptr = nat

definition nullptr :: ptr where
  "nullptr = 0"

text \<open>
  The header of the class is not part of the sources. \<open>tBitChunkType\<close> is an unsigned
  machine word of some fixed width; the model takes it as the type parameter \<open>'w\<close>, so that
  \<open>kBitChunkSize\<close>, the number of bits of \<open>tBitChunkType\<close>, is \<open>LENGTH('w)\<close> and
  \<open>kBit1\<close> is the word 1.
\<close>

definition kBitChunkSize :: "'w::len itself \<Rightarrow> nat" where
  "kBitChunkSize _ = LENGTH('w)"

definition kBit1 :: "'w::len word" where
  "kBit1 = 1"

text \<open>
  The object, with \<open>tBitChunkType\<close> as the parameter \<open>'chunk\<close> (always a \<open>'w word\<close>
  below): \<open>mUsage\<close> points to an array of atomic words, modelled as the memory behind
  the pointer (word index to word value). \<open>mAllocated\<close> is the diagnostic counter of live
  slots that \<open>IncreaseUsage\<close> and \<open>DecreaseUsage\<close> maintain.
\<close>

record 'chunk StaticAllocatorBitmap =
  mCapacity :: nat
  mElements :: ptr
  mElementSize :: nat
  mUsage :: "nat \<Rightarrow> 'chunk"
  mAllocated :: nat

text \<open>
  \<open>VerifyOrDie\<close> terminates the process; a remainder or quotient by an element size of 0
  is undefined behaviour in C++ and is kept apart from it.
\<close>

datatype fault = Died | DivisionByZero

subsection \<open>Atomic operations on one bitmap word\<close>

definition load :: "(nat \<Rightarrow> 'w::len word) \<Rightarrow> nat \<Rightarrow> 'w word" where
  "load u word = u word"

definition store :: "(nat \<Rightarrow> 'w::len word) \<Rightarrow> nat \<Rightarrow> 'w word \<Rightarrow> (nat \<Rightarrow> 'w word)" where
  "store u word v = u(word := v)"

text \<open>
  \<open>compare_exchange_strong(expected, desired)\<close>: the success flag, the new content of
  \<open>expected\<close> (the current value of the word on failure) and the memory.
\<close>

definition compare_exchange_strong ::
  "(nat \<Rightarrow> 'w::len word) \<Rightarrow> nat \<Rightarrow> 'w word \<Rightarrow> 'w word \<Rightarrow> bool \<times> 'w word \<times> (nat \<Rightarrow> 'w word)" where
  "compare_exchange_strong u word expected desired =
     (if u word = expected then (True, expected, u(word := desired))
      else (False, u word, u))"

text \<open>\<open>fetch_and(bits)\<close>: the previous value of the word and the memory.\<close>

definition fetch_and ::
  "(nat \<Rightarrow> 'w::len word) \<Rightarrow> nat \<Rightarrow> 'w word \<Rightarrow> 'w word \<times> (nat \<Rightarrow> 'w word)" where
  "fetch_and u word bits = (u word, u(word := u word AND bits))"

subsection \<open>Members declared in the header\<close>

text \<open>
  Modelled from the spec: \<open>At\<close>, \<open>IncreaseUsage\<close> and \<open>DecreaseUsage\<close> are defined in the
  header, which is missing. The address of slot \<open>i\<close> is \<open>storage + i * elementSize\<close>; the
  counter of live slots is incremented on a successful allocation and decremented on a
  deallocation.
\<close>

definition At :: "'w::len word StaticAllocatorBitmap \<Rightarrow> nat \<Rightarrow> ptr" where
  "At p index = mElements p + mElementSize p * index"

definition IncreaseUsage :: "'w::len word StaticAllocatorBitmap \<Rightarrow> 'w word StaticAllocatorBitmap" where
  "IncreaseUsage p = p\<lparr>mAllocated := mAllocated p + 1\<rparr>"

definition DecreaseUsage :: "'w::len word StaticAllocatorBitmap \<Rightarrow> 'w word StaticAllocatorBitmap" where
  "DecreaseUsage p = p\<lparr>mAllocated := mAllocated p - 1\<rparr>"

subsection \<open>Constructor\<close>

function ctor_loop :: "'w::len word StaticAllocatorBitmap \<Rightarrow> nat \<Rightarrow> 'w word StaticAllocatorBitmap" where
  "ctor_loop p word =
     (if word * kBitChunkSize TYPE('w) < mCapacity p
      then ctor_loop (p\<lparr>mUsage := store (mUsage p) word 0\<rparr>) (word + 1)
      else p)"
  by pat_completeness auto
termination
  by (relation "measure (\<lambda>(p :: 'w::len word StaticAllocatorBitmap, word).
        mCapacity p - word * kBitChunkSize TYPE('w))")
     (auto simp: kBitChunkSize_def intro: diff_less_mono2)

declare ctor_loop.simps [simp del]

definition StaticAllocatorBitmap_ctor ::
  "ptr \<Rightarrow> (nat \<Rightarrow> 'w::len word) \<Rightarrow> nat \<Rightarrow> nat \<Rightarrow> 'w word StaticAllocatorBitmap" where
  "StaticAllocatorBitmap_ctor storage usage capacity elementSize =
     ctor_loop \<lparr>mCapacity = capacity, mElements = storage, mElementSize = elementSize,
                mUsage = usage, mAllocated = 0\<rparr> 0"

subsection \<open>Allocate\<close>

text \<open>
  The inner loop over the bits of one word. \<open>Some a\<close> is the \<open>return\<close> of the address \<open>a\<close>
  from inside the loop, \<open>None\<close> is the loop running to its end.
\<close>

function Allocate_bits ::
  "'w::len word StaticAllocatorBitmap \<Rightarrow> nat \<Rightarrow> 'w word \<Rightarrow> nat \<Rightarrow> ptr option \<times> 'w word StaticAllocatorBitmap" where
  "Allocate_bits p word value offset =
     (if offset < kBitChunkSize TYPE('w) \<and> offset + word * kBitChunkSize TYPE('w) < mCapacity p
      then
        if value AND push_bit offset kBit1 = 0
        then
          (case compare_exchange_strong (mUsage p) word value (value OR push_bit offset kBit1) of
             (True, _, u) \<Rightarrow>
               (Some (At p (word * kBitChunkSize TYPE('w) + offset)), IncreaseUsage (p\<lparr>mUsage := u\<rparr>))
           | (False, _, u) \<Rightarrow>
               Allocate_bits (p\<lparr>mUsage := u\<rparr>) word (load u word) (offset + 1))
        else Allocate_bits p word value (offset + 1)
      else (None, p))"
  by pat_completeness auto
termination
  by (relation "measure (\<lambda>(p :: 'w::len word StaticAllocatorBitmap, word, value, offset).
        kBitChunkSize TYPE('w) - offset)") auto

declare Allocate_bits.simps [simp del]

text \<open>The four ways through one iteration of the inner loop.\<close>

lemma Allocate_bits_end:
  "\<not> (offset < kBitChunkSize TYPE('w) \<and> offset + word * kBitChunkSize TYPE('w) < mCapacity p) \<Longrightarrow>
   Allocate_bits (p :: 'w::len word StaticAllocatorBitmap) word v offset = (None, p)"
  by (subst Allocate_bits.simps) auto

lemma Allocate_bits_skip:
  "offset < kBitChunkSize TYPE('w) \<Longrightarrow> offset + word * kBitChunkSize TYPE('w) < mCapacity p \<Longrightarrow>
   v AND push_bit offset kBit1 \<noteq> 0 \<Longrightarrow>
   Allocate_bits (p :: 'w::len word StaticAllocatorBitmap) word v offset = Allocate_bits p word v (offset + 1)"
  by (subst Allocate_bits.simps) simp

lemma Allocate_bits_claim:
  "offset < kBitChunkSize TYPE('w) \<Longrightarrow> offset + word * kBitChunkSize TYPE('w) < mCapacity p \<Longrightarrow>
   v AND push_bit offset kBit1 = 0 \<Longrightarrow> mUsage p word = v \<Longrightarrow>
   Allocate_bits (p :: 'w::len word StaticAllocatorBitmap) word v offset =
     (Some (At p (word * kBitChunkSize TYPE('w) + offset)),
      IncreaseUsage (p\<lparr>mUsage := (mUsage p)(word := v OR push_bit offset kBit1)\<rparr>))"
  by (subst Allocate_bits.simps) (simp add: compare_exchange_strong_def)

lemma Allocate_bits_retry:
  "offset < kBitChunkSize TYPE('w) \<Longrightarrow> offset + word * kBitChunkSize TYPE('w) < mCapacity p \<Longrightarrow>
   v AND push_bit offset kBit1 = 0 \<Longrightarrow> mUsage p word \<noteq> v \<Longrightarrow>
   Allocate_bits (p :: 'w::len word StaticAllocatorBitmap) word v offset =
     Allocate_bits p word (mUsage p word) (offset + 1)"
  by (subst Allocate_bits.simps) (simp add: compare_exchange_strong_def load_def)


lemma Allocate_bits_None:
  "Allocate_bits (p :: 'w::len word StaticAllocatorBitmap) word v offset = (None, p') \<Longrightarrow> p' = p"
proof (induction "kBitChunkSize TYPE('w) - offset" arbitrary: offset v)
  case 0
  then show ?case by (simp add: Allocate_bits_end)
next
  case (Suc n)
  then have *: "n = kBitChunkSize TYPE('w) - (offset + 1)" "offset < kBitChunkSize TYPE('w)"
    by simp_all
  show ?case
  proof (cases "offset + word * kBitChunkSize TYPE('w) < mCapacity p")
    case False
    with Suc.prems show ?thesis by (simp add: Allocate_bits_end)
  next
    case True
    show ?thesis
    proof (cases "v AND push_bit offset kBit1 = 0")
      case False
      with Suc.prems Suc.hyps(1) [OF *(1)] * True show ?thesis
        by (simp add: Allocate_bits_skip)
    next
      case bit0: True
      show ?thesis
      proof (cases "mUsage p word = v")
        case True
        with Suc.prems * \<open>offset + word * kBitChunkSize TYPE('w) < mCapacity p\<close> bit0
        show ?thesis by (simp add: Allocate_bits_claim)
      next
        case False
        with Suc.prems Suc.hyps(1) [OF *(1)] * \<open>offset + word * kBitChunkSize TYPE('w) < mCapacity p\<close> bit0
        show ?thesis by (simp add: Allocate_bits_retry)
      qed
    qed
  qed
qed

text \<open>The outer loop over the words of the bitmap, and the method itself.\<close>

function Allocate_words ::
  "'w::len word StaticAllocatorBitmap \<Rightarrow> nat \<Rightarrow> ptr \<times> 'w word StaticAllocatorBitmap" where
  "Allocate_words p word =
     (if word * kBitChunkSize TYPE('w) < mCapacity p
      then
        (case Allocate_bits p word (load (mUsage p) word) 0 of
           (Some a, p') \<Rightarrow> (a, p')
         | (None, p') \<Rightarrow> Allocate_words p' (word + 1))
      else (nullptr, p))"
  by pat_completeness auto
termination
  by (relation "measure (\<lambda>(p :: 'w::len word StaticAllocatorBitmap, word).
        mCapacity p - word * kBitChunkSize TYPE('w))")
     (auto simp: kBitChunkSize_def intro: diff_less_mono2 dest!: Allocate_bits_None [OF sym])

declare Allocate_words.simps [simp del]

definition Allocate :: "'w::len word StaticAllocatorBitmap \<Rightarrow> ptr \<times> 'w word StaticAllocatorBitmap" where
  "Allocate p = Allocate_words p 0"

subsection \<open>IndexOf and Deallocate\<close>

definition IndexOf :: "'w::len word StaticAllocatorBitmap \<Rightarrow> ptr \<Rightarrow> fault + nat" where
  "IndexOf p element =
     (let diff = int element - int (mElements p) in
      if \<not> diff \<ge> 0 then Inl Died
      else if mElementSize p = 0 then Inl DivisionByZero
      else if \<not> nat diff mod mElementSize p = 0 then Inl Died
      else
        let index = nat diff div mElementSize p in
        if \<not> index < mCapacity p then Inl Died
        else Inr index)"

definition Deallocate ::
  "'w::len word StaticAllocatorBitmap \<Rightarrow> ptr \<Rightarrow> fault + 'w word StaticAllocatorBitmap" where
  "Deallocate p element =
     (case IndexOf p element of
        Inl f \<Rightarrow> Inl f
      | Inr index \<Rightarrow>
          let word = index div kBitChunkSize TYPE('w);
              offset = index - word * kBitChunkSize TYPE('w)
          in
          if \<not> index < mCapacity p then Inl Died
          else
            (case fetch_and (mUsage p) word (NOT (push_bit offset kBit1)) of
               (value, u) \<Rightarrow>
                 if \<not> value AND push_bit offset kBit1 \<noteq> 0 then Inl Died
                 else Inr (DecreaseUsage (p\<lparr>mUsage := u\<rparr>))))"

subsection \<open>ForEachActiveObjectInner\<close>

text \<open>
  \<open>Lambda\<close> is a function pointer \<open>bool (*)(void * context, void * object)\<close>; whatever
  it reads and writes through its context is the state \<open>'s\<close> that the model passes through
  the calls. The inner loop yields \<open>False\<close> when it has left the method with
  \<open>return false\<close>.
\<close>

type_synonym ('c, 's) Lambda = "'c \<Rightarrow> ptr \<Rightarrow> 's \<Rightarrow> bool \<times> 's"

function ForEach_bits ::
  "'w::len word StaticAllocatorBitmap \<Rightarrow> 'c \<Rightarrow> ('c, 's) Lambda \<Rightarrow> nat \<Rightarrow> 'w word \<Rightarrow> nat \<Rightarrow> 's \<Rightarrow> bool \<times> 's" where
  "ForEach_bits p ctxt lambda word value offset s =
     (if offset < kBitChunkSize TYPE('w) \<and> offset + word * kBitChunkSize TYPE('w) < mCapacity p
      then
        if value AND push_bit offset kBit1 \<noteq> 0
        then
          (case lambda ctxt (At p (word * kBitChunkSize TYPE('w) + offset)) s of
             (False, s') \<Rightarrow> (False, s')
           | (True, s') \<Rightarrow> ForEach_bits p ctxt lambda word value (offset + 1) s')
        else ForEach_bits p ctxt lambda word value (offset + 1) s
      else (True, s))"
  by pat_completeness auto
termination
  by (relation "measure (\<lambda>(p :: 'w::len word StaticAllocatorBitmap, ctxt, lambda, word, value, offset, s).
        kBitChunkSize TYPE('w) - offset)") auto

declare ForEach_bits.simps [simp del]

function ForEach_words ::
  "'w::len word StaticAllocatorBitmap \<Rightarrow> 'c \<Rightarrow> ('c, 's) Lambda \<Rightarrow> nat \<Rightarrow> 's \<Rightarrow> bool \<times> 's" where
  "ForEach_words p ctxt lambda word s =
     (if word * kBitChunkSize TYPE('w) < mCapacity p
      then
        (case ForEach_bits p ctxt lambda word (load (mUsage p) word) 0 s of
           (False, s') \<Rightarrow> (False, s')
         | (True, s') \<Rightarrow> ForEach_words p ctxt lambda (word + 1) s')
      else (True, s))"
  by pat_completeness auto
termination
  by (relation "measure (\<lambda>(p :: 'w::len word StaticAllocatorBitmap, ctxt, lambda, word, s).
        mCapacity p - word * kBitChunkSize TYPE('w))")
     (auto simp: kBitChunkSize_def intro: diff_less_mono2)

declare ForEach_words.simps [simp del]

definition ForEachActiveObjectInner ::
  "'w::len word StaticAllocatorBitmap \<Rightarrow> 'c \<Rightarrow> ('c, 's) Lambda \<Rightarrow> 's \<Rightarrow> bool \<times> 's" where
  "ForEachActiveObjectInner p ctxt lambda s = ForEach_words p ctxt lambda 0 s"

subsection \<open>A sequential caller\<close>

text \<open>
  The calls that one caller makes on the pool, one after the other. The caller keeps the
  addresses that \<open>Allocate\<close> has returned, in the order of the calls, and the addresses it
  holds: those it got from \<open>Allocate\<close> (other than \<open>nullptr\<close>) and has not passed to
  \<open>Deallocate\<close> since. A call that terminates the process ends the run.
\<close>

datatype call = CallAllocate | CallDeallocate ptr

type_synonym 'w caller = "'w word StaticAllocatorBitmap \<times> ptr list \<times> ptr list"

fun call_step :: "'w::len caller \<Rightarrow> call \<Rightarrow> fault + 'w caller" where
  "call_step (p, returned, held) CallAllocate =
     (case Allocate p of
        (a, p') \<Rightarrow> Inr (p', returned @ [a], if a = nullptr then held else held @ [a]))"
| "call_step (p, returned, held) (CallDeallocate element) =
     (case Deallocate p element of
        Inl f \<Rightarrow> Inl f
      | Inr p' \<Rightarrow> Inr (p', returned, removeAll element held))"

fun run :: "'w::len caller \<Rightarrow> call list \<Rightarrow> fault + 'w caller" where
  "run c [] = Inr c"
| "run c (x # xs) = (case call_step c x of Inl f \<Rightarrow> Inl f | Inr c' \<Rightarrow> run c' xs)"

subsection \<open>Example pools\<close>

text \<open>A pool of four slots of eight bytes at address 1000, with slots 0 and 2 in use.\<close>

definition pool_0_2 :: "64 word StaticAllocatorBitmap" where
  "pool_0_2 = \<lparr>mCapacity = 4, mElements = 1000, mElementSize = 8, mUsage = (\<lambda>_. 0)(0 := 5), mAllocated = 2\<rparr>"

text \<open>The same pool with its four slots in use.\<close>

definition pool_full :: "64 word StaticAllocatorBitmap" where
  "pool_full = \<lparr>mCapacity = 4, mElements = 1000, mElementSize = 8, mUsage = (\<lambda>_. 0)(0 := 15), mAllocated = 4\<rparr>"

text \<open>A predicate for the enumeration that keeps the addresses it is given and never stops.\<close>

definition collect :: "(nat, ptr list) Lambda" where
  "collect c a s = (True, a # s)"

text \<open>A predicate that keeps the addresses it is given and stops at the address that is its context.\<close>

definition until :: "(ptr, ptr list) Lambda" where
  "until c a s = (a \<noteq> c, a # s)"

section \<open>Sequential behaviour\<close>

subsection \<open>Vocabulary\<close>

text \<open>
  Bit \<open>i\<close> of the bitmap is bit \<open>i mod kBitChunkSize\<close> of word \<open>i div kBitChunkSize\<close>;
  slot \<open>i\<close> is in use when the bit is set. \<open>claim_slot\<close> and \<open>release_slot\<close> are the
  object after the bit of slot \<open>i\<close> has been set by \<open>Allocate\<close> and cleared by
  \<open>Deallocate\<close>.
\<close>

definition slot_used :: "'w::len word StaticAllocatorBitmap \<Rightarrow> nat \<Rightarrow> bool" where
  "slot_used p i = bit (mUsage p (i div kBitChunkSize TYPE('w))) (i mod kBitChunkSize TYPE('w))"

definition claim_slot :: "'w::len word StaticAllocatorBitmap \<Rightarrow> nat \<Rightarrow> 'w word StaticAllocatorBitmap" where
  "claim_slot p i =
     IncreaseUsage (p\<lparr>mUsage := (mUsage p)
       (i div kBitChunkSize TYPE('w) :=
          mUsage p (i div kBitChunkSize TYPE('w)) OR push_bit (i mod kBitChunkSize TYPE('w)) kBit1)\<rparr>)"

definition release_slot :: "'w::len word StaticAllocatorBitmap \<Rightarrow> nat \<Rightarrow> 'w word StaticAllocatorBitmap" where
  "release_slot p i =
     DecreaseUsage (p\<lparr>mUsage := (mUsage p)
       (i div kBitChunkSize TYPE('w) :=
          mUsage p (i div kBitChunkSize TYPE('w)) AND NOT (push_bit (i mod kBitChunkSize TYPE('w)) kBit1))\<rparr>)"

subsection \<open>Allocate takes the first free slot\<close>

lemma test_bit: "v AND push_bit offset kBit1 = 0 \<longleftrightarrow> \<not> bit (v :: 'w::len word) offset"
  by (simp add: kBit1_def bit_iff_and_push_bit_not_eq_0)

lemma Allocate_bits_seq:
  fixes p :: "'w::len word StaticAllocatorBitmap"
  assumes "n = min (kBitChunkSize TYPE('w)) (mCapacity p - word * kBitChunkSize TYPE('w))"
  shows "Allocate_bits p word (mUsage p word) offset =
     (case find (\<lambda>i. \<not> slot_used p i) [word * kBitChunkSize TYPE('w) + offset ..< word * kBitChunkSize TYPE('w) + n] of
        None \<Rightarrow> (None, p)
      | Some i \<Rightarrow> (Some (At p i), claim_slot p i))"
proof (induction "n - offset" arbitrary: offset)
  case 0
  then have "\<not> (offset < kBitChunkSize TYPE('w) \<and> offset + word * kBitChunkSize TYPE('w) < mCapacity p)"
    using assms by auto
  with 0 show ?case by (simp add: Allocate_bits_end)
next
  case (Suc k)
  then have r: "offset < kBitChunkSize TYPE('w)" "offset + word * kBitChunkSize TYPE('w) < mCapacity p"
    and k: "k = n - (offset + 1)" and lt: "offset < n"
    using assms by auto
  have idx: "(word * kBitChunkSize TYPE('w) + offset) div kBitChunkSize TYPE('w) = word"
    "(word * kBitChunkSize TYPE('w) + offset) mod kBitChunkSize TYPE('w) = offset"
    using r(1) by simp_all
  have upt: "[word * kBitChunkSize TYPE('w) + offset ..< word * kBitChunkSize TYPE('w) + n] =
     (word * kBitChunkSize TYPE('w) + offset) # [word * kBitChunkSize TYPE('w) + (offset + 1) ..< word * kBitChunkSize TYPE('w) + n]"
    using lt by (simp add: upt_conv_Cons)
  show ?case
  proof (cases "bit (mUsage p word) offset")
    case True
    then show ?thesis
      using Suc.hyps(1) [OF k] r
      by (simp add: Allocate_bits_skip test_bit upt slot_used_def idx del: upt_Suc)
  next
    case False
    then show ?thesis
      using r by (simp add: Allocate_bits_claim test_bit upt slot_used_def idx claim_slot_def del: upt_Suc)
  qed
qed

lemma find_app:
  "find P (xs @ ys) = (case find P xs of None \<Rightarrow> find P ys | Some x \<Rightarrow> Some x)"
  by (induction xs) simp_all

lemma Allocate_words_seq:
  fixes p :: "'w::len word StaticAllocatorBitmap"
  shows "Allocate_words p word =
     (case find (\<lambda>i. \<not> slot_used p i) [word * kBitChunkSize TYPE('w) ..< mCapacity p] of
        None \<Rightarrow> (nullptr, p)
      | Some i \<Rightarrow> (At p i, claim_slot p i))"
proof (induction "mCapacity p - word * kBitChunkSize TYPE('w)" arbitrary: word rule: less_induct)
  case less
  let ?W = "kBitChunkSize TYPE('w)"
  show ?case
  proof (cases "word * ?W < mCapacity p")
    case False
    then show ?thesis by (subst Allocate_words.simps) simp
  next
    case True
    define n where "n = min ?W (mCapacity p - word * ?W)"
    have W: "0 < ?W" by (simp add: kBitChunkSize_def)
    have split: "[word * ?W ..< mCapacity p] = [word * ?W + 0 ..< word * ?W + n] @ [(word + 1) * ?W ..< mCapacity p]"
    proof (cases "?W \<le> mCapacity p - word * ?W")
      case True
      then have "n = ?W" by (simp add: n_def)
      moreover from True \<open>word * ?W < mCapacity p\<close> obtain d where "mCapacity p = (word * ?W + ?W) + d"
        using le_iff_add [of "word * ?W + ?W" "mCapacity p"] by auto
      ultimately show ?thesis
        using upt_add_eq_append [of "word * ?W" "word * ?W + ?W" d] by (simp add: add.commute)
    next
      case False
      then have "n = mCapacity p - word * ?W" by (simp add: n_def)
      with False \<open>word * ?W < mCapacity p\<close> show ?thesis by simp
    qed
    have IH: "Allocate_words p (word + 1) =
       (case find (\<lambda>i. \<not> slot_used p i) [(word + 1) * ?W ..< mCapacity p] of
          None \<Rightarrow> (nullptr, p) | Some i \<Rightarrow> (At p i, claim_slot p i))"
      using True W by (intro less) (simp add: diff_less_mono2)
    show ?thesis
      using True IH
      by (subst Allocate_words.simps)
         (simp add: load_def Allocate_bits_seq [OF n_def, of 0] split find_app split: option.split)
  qed
qed

lemma Allocate_seq:
  "Allocate p =
     (case find (\<lambda>i. \<not> slot_used p i) [0 ..< mCapacity p] of
        None \<Rightarrow> (nullptr, p)
      | Some i \<Rightarrow> (At p i, claim_slot p i))"
  using Allocate_words_seq [of p 0] by (simp add: Allocate_def)

subsection \<open>IndexOf and Deallocate\<close>

lemma IndexOf_seq:
  assumes "0 < mElementSize p"
  shows "IndexOf p element =
     (if int element - int (mElements p) < 0
         \<or> (element - mElements p) mod mElementSize p \<noteq> 0
         \<or> mCapacity p \<le> (element - mElements p) div mElementSize p
      then Inl Died
      else Inr ((element - mElements p) div mElementSize p))"
proof -
  have "nat (int element - int (mElements p)) = element - mElements p"
    by simp
  with assms show ?thesis
    by (simp add: IndexOf_def Let_def not_less del: nat_int)
qed

lemma Deallocate_index:
  fixes p :: "'w::len word StaticAllocatorBitmap"
  assumes "IndexOf p element = Inr i"
  shows "Deallocate p element = (if slot_used p i then Inr (release_slot p i) else Inl Died)"
proof -
  have i: "i < mCapacity p"
    using assms by (auto simp: IndexOf_def Let_def split: if_splits)
  have off: "i - i div kBitChunkSize TYPE('w) * kBitChunkSize TYPE('w) = i mod kBitChunkSize TYPE('w)"
    by (simp add: minus_div_mult_eq_mod)
  show ?thesis
    using assms i
    by (simp add: Deallocate_def Let_def off fetch_and_def test_bit slot_used_def release_slot_def)
qed

lemma Deallocate_fault:
  "IndexOf p element = Inl f \<Longrightarrow> Deallocate p element = Inl f"
  by (simp add: Deallocate_def)


lemma bit_set_word:
  "offset < LENGTH('w) \<Longrightarrow>
   bit ((v :: 'w::len word) OR push_bit offset kBit1) n \<longleftrightarrow> n = offset \<or> bit v n"
  by (auto simp: kBit1_def bit_simps)

lemma bit_clear_word:
  "bit ((v :: 'w::len word) AND NOT (push_bit offset kBit1)) n \<longleftrightarrow> n \<noteq> offset \<and> bit v n"
  by (auto simp: kBit1_def bit_simps dest: bit_imp_le_length)

lemma slot_eq_iff:
  "0 < W \<Longrightarrow> (j div W = i div W \<and> j mod W = i mod W) \<longleftrightarrow> j = (i :: nat)"
  by (metis div_mult_mod_eq)

lemma slot_used_claim:
  "slot_used (claim_slot p i) j \<longleftrightarrow> j = i \<or> slot_used p j"
  using slot_eq_iff [of "LENGTH('a)" j i]
  by (auto simp: slot_used_def claim_slot_def IncreaseUsage_def kBitChunkSize_def bit_set_word)

lemma slot_used_release:
  "slot_used (release_slot p i) j \<longleftrightarrow> j \<noteq> i \<and> slot_used p j"
  using slot_eq_iff [of "LENGTH('a)" j i]
  by (auto simp: slot_used_def release_slot_def DecreaseUsage_def kBitChunkSize_def bit_clear_word)

lemma claim_slot_frame [simp]:
  "mCapacity (claim_slot p i) = mCapacity p"
  "mElements (claim_slot p i) = mElements p"
  "mElementSize (claim_slot p i) = mElementSize p"
  "mAllocated (claim_slot p i) = mAllocated p + 1"
  by (simp_all add: claim_slot_def IncreaseUsage_def)

lemma release_slot_frame [simp]:
  "mCapacity (release_slot p i) = mCapacity p"
  "mElements (release_slot p i) = mElements p"
  "mElementSize (release_slot p i) = mElementSize p"
  "mAllocated (release_slot p i) = mAllocated p - 1"
  by (simp_all add: release_slot_def DecreaseUsage_def)

lemma At_frame [simp]:
  "At (claim_slot p i) = At p" "At (release_slot p i) = At p"
  by (simp_all add: At_def fun_eq_iff)

subsection \<open>The constructor clears the bitmap\<close>

lemma ctor_loop_usage:
  fixes p :: "'w::len word StaticAllocatorBitmap"
  shows "mUsage (ctor_loop p word) w =
           (if word \<le> w \<and> w * kBitChunkSize TYPE('w) < mCapacity p then 0 else mUsage p w)
         \<and> mCapacity (ctor_loop p word) = mCapacity p
         \<and> mElements (ctor_loop p word) = mElements p
         \<and> mElementSize (ctor_loop p word) = mElementSize p
         \<and> mAllocated (ctor_loop p word) = mAllocated p"
proof (induction p word rule: ctor_loop.induct)
  case (1 p word)
  show ?case
  proof (cases "word * kBitChunkSize TYPE('w) < mCapacity p")
    case False
    have "\<not> (word \<le> w \<and> w * kBitChunkSize TYPE('w) < mCapacity p)"
    proof
      assume *: "word \<le> w \<and> w * kBitChunkSize TYPE('w) < mCapacity p"
      then have "word * kBitChunkSize TYPE('w) \<le> w * kBitChunkSize TYPE('w)"
        by (intro mult_le_mono1) simp
      with * False show False by simp
    qed
    with False show ?thesis
      by (subst (1 2 3 4 5) ctor_loop.simps) auto
  next
    case True
    with "1.IH" show ?thesis
      by (subst (1 2 3 4 5) ctor_loop.simps) (auto simp: store_def)
  qed
qed

lemma ctor_fields [simp]:
  "mCapacity (StaticAllocatorBitmap_ctor storage usage capacity elementSize) = capacity"
  "mElements (StaticAllocatorBitmap_ctor storage usage capacity elementSize) = storage"
  "mElementSize (StaticAllocatorBitmap_ctor storage usage capacity elementSize) = elementSize"
  "mAllocated (StaticAllocatorBitmap_ctor storage usage capacity elementSize) = 0"
  by (simp_all add: StaticAllocatorBitmap_ctor_def ctor_loop_usage)

lemma ctor_slot_free:
  "i < capacity \<Longrightarrow> \<not> slot_used (StaticAllocatorBitmap_ctor storage usage capacity elementSize) i"
proof -
  assume "i < capacity"
  moreover have "i div kBitChunkSize TYPE('a) * kBitChunkSize TYPE('a) \<le> i"
    by simp
  ultimately have "i div kBitChunkSize TYPE('a) * kBitChunkSize TYPE('a) < capacity"
    by (rule le_less_trans [rotated])
  then show ?thesis
    by (simp add: slot_used_def StaticAllocatorBitmap_ctor_def ctor_loop_usage)
qed

section \<open>The claims\<close>

text \<open>
  C4. \<open>Deallocate\<close> computes the slot index as \<open>(address - storage) / elementSize\<close> and
  terminates the process exactly when the validation fails: the byte offset is negative,
  or it is not a multiple of \<open>elementSize\<close>, or the index is not below the capacity. An
  address that passes the three checks gets its index from \<open>IndexOf\<close>, and \<open>Deallocate\<close>
  goes on to the bit of that slot: from there it terminates only if the bit is clear.
  An element size of 0 makes the remainder undefined, so the pool has elements of at
  least one byte.
\<close>

theorem C4_Deallocate_validation:
  fixes p :: "'w::len word StaticAllocatorBitmap"
  assumes "0 < mElementSize p"
  shows "(IndexOf p element = Inl Died \<longleftrightarrow>
            int element - int (mElements p) < 0
            \<or> (int element - int (mElements p)) mod int (mElementSize p) \<noteq> 0
            \<or> int (mCapacity p) \<le> (int element - int (mElements p)) div int (mElementSize p))
       \<and> (IndexOf p element = Inl Died
            \<or> IndexOf p element =
                Inr (nat ((int element - int (mElements p)) div int (mElementSize p))))
       \<and> (Deallocate p element =
            (case IndexOf p element of
               Inl f \<Rightarrow> Inl Died
             | Inr i \<Rightarrow> if slot_used p i then Inr (release_slot p i) else Inl Died))"
proof (cases "mElements p \<le> element")
  case False
  then have "int element - int (mElements p) < 0" by simp
  with assms show ?thesis
    by (simp add: IndexOf_seq Deallocate_fault)
next
  case True
  then have d: "int element - int (mElements p) = int (element - mElements p)"
    by simp
  have m: "int (element - mElements p) mod int (mElementSize p) = int ((element - mElements p) mod mElementSize p)"
    by (simp add: zmod_int)
  have q: "int (element - mElements p) div int (mElementSize p) = int ((element - mElements p) div mElementSize p)"
    by (simp add: zdiv_int)
  have i: "IndexOf p element =
     (if (element - mElements p) mod mElementSize p \<noteq> 0
         \<or> mCapacity p \<le> (element - mElements p) div mElementSize p
      then Inl Died
      else Inr ((element - mElements p) div mElementSize p))"
    using assms True by (simp add: IndexOf_seq)
  show ?thesis
    unfolding d m q
    by (auto simp: i Deallocate_fault Deallocate_index)
qed

theorem C4_Deallocate_validation_witness:
  "IndexOf pool_0_2 1016 = Inr 2
   \<and> (\<exists>p'. Deallocate pool_0_2 1016 = Inr p')
   \<and> IndexOf pool_0_2 992 = Inl Died \<and> Deallocate pool_0_2 992 = Inl Died
   \<and> IndexOf pool_0_2 1012 = Inl Died \<and> Deallocate pool_0_2 1012 = Inl Died
   \<and> IndexOf pool_0_2 1032 = Inl Died \<and> Deallocate pool_0_2 1032 = Inl Died"
proof -
  have f: "mCapacity pool_0_2 = 4" "mElements pool_0_2 = 1000" "mElementSize pool_0_2 = 8"
    by (simp_all add: pool_0_2_def)
  have s: "0 < mElementSize pool_0_2"
    by (simp add: f)
  have u: "slot_used pool_0_2 2"
    by (simp add: pool_0_2_def slot_used_def kBitChunkSize_def)
  show ?thesis
    using C4_Deallocate_validation [OF s, of 1016] C4_Deallocate_validation [OF s, of 992]
      C4_Deallocate_validation [OF s, of 1012] C4_Deallocate_validation [OF s, of 1032] u
    by (auto simp: f)
qed

lemma Allocate_cases:
  assumes "Allocate p = (a, p')"
  obtains (full) "\<forall>i<mCapacity p. slot_used p i" "a = nullptr" "p' = p"
  | (claimed) i where "i < mCapacity p" "\<not> slot_used p i" "\<forall>j<i. slot_used p j"
      "a = At p i" "p' = claim_slot p i"
proof (cases "find (\<lambda>i. \<not> slot_used p i) [0 ..< mCapacity p]")
  case None
  then have "\<forall>i<mCapacity p. slot_used p i"
    by (auto simp: find_None_iff)
  moreover from None assms have "a = nullptr" "p' = p"
    unfolding Allocate_seq by simp_all
  ultimately show ?thesis by (rule full)
next
  case (Some i)
  then have "i < mCapacity p" "\<not> slot_used p i" "\<forall>j<i. slot_used p j"
    by (auto simp: find_Some_iff)
  moreover from Some assms have "a = At p i" "p' = claim_slot p i"
    unfolding Allocate_seq by simp_all
  ultimately show ?thesis by (rule claimed)
qed

lemma IndexOf_frame:
  "mCapacity p' = mCapacity p \<Longrightarrow> mElements p' = mElements p \<Longrightarrow> mElementSize p' = mElementSize p \<Longrightarrow>
   IndexOf p' element = IndexOf p element"
  by (simp add: IndexOf_def Let_def)

lemma IndexOf_At:
  "0 < mElementSize p \<Longrightarrow> i < mCapacity p \<Longrightarrow> IndexOf p (At p i) = Inr i"
  by (simp add: IndexOf_seq At_def not_less zero_le_mult_iff)

lemma IndexOf_Inr:
  assumes "IndexOf p element = Inr i"
  shows "i < mCapacity p" "0 < mElementSize p" "element = At p i"
proof -
  show s: "0 < mElementSize p"
    using assms by (auto simp: IndexOf_def Let_def split: if_splits)
  from assms have *: "mElements p \<le> element" "(element - mElements p) mod mElementSize p = 0"
    "i = (element - mElements p) div mElementSize p" "i < mCapacity p"
    unfolding IndexOf_seq [OF s] by (auto split: if_splits)
  then show "i < mCapacity p" by simp
  from * show "element = At p i"
    by (simp add: At_def mod_eq_0_iff_dvd)
qed

text \<open>
  C5. \<open>Deallocate\<close> on an address that passes the validation clears the bit of its slot
  with one \<open>fetch_and\<close>; when the bit is already clear the process is terminated, so
  that a second \<open>Deallocate\<close> of the same address right after the first terminates it.
  With a capacity of 1, \<open>Allocate\<close> followed by two \<open>Deallocate\<close> calls on the
  returned address terminates on the second.
\<close>

theorem C5_Deallocate_double_free:
  fixes p :: "'w::len word StaticAllocatorBitmap"
  shows "(IndexOf p element = Inr i \<longrightarrow>
            Deallocate p element =
              (if slot_used p i
               then Inr (DecreaseUsage (p\<lparr>mUsage :=
                      snd (fetch_and (mUsage p) (i div kBitChunkSize TYPE('w))
                             (NOT (push_bit (i mod kBitChunkSize TYPE('w)) kBit1)))\<rparr>))
               else Inl Died))
       \<and> (IndexOf p element = Inr i \<and> slot_used p i \<longrightarrow>
            (\<exists>p'. Deallocate p element = Inr p' \<and> \<not> slot_used p' i
                  \<and> Deallocate p' element = Inl Died))
       \<and> (0 < elementSize \<longrightarrow>
            (\<exists>a p1 p2.
               Allocate (StaticAllocatorBitmap_ctor storage (usage :: nat \<Rightarrow> 'w word) 1 elementSize) = (a, p1)
               \<and> a = storage
               \<and> Deallocate p1 a = Inr p2
               \<and> Deallocate p2 a = Inl Died))"
proof (intro conjI impI)
  assume "IndexOf p element = Inr i"
  then show "Deallocate p element =
      (if slot_used p i
       then Inr (DecreaseUsage (p\<lparr>mUsage :=
              snd (fetch_and (mUsage p) (i div kBitChunkSize TYPE('w))
                     (NOT (push_bit (i mod kBitChunkSize TYPE('w)) kBit1)))\<rparr>))
       else Inl Died)"
    by (simp add: Deallocate_index release_slot_def fetch_and_def)
next
  assume a: "IndexOf p element = Inr i \<and> slot_used p i"
  then have "Deallocate p element = Inr (release_slot p i)"
    by (simp add: Deallocate_index)
  moreover have "\<not> slot_used (release_slot p i) i"
    by (simp add: slot_used_release)
  moreover have "IndexOf (release_slot p i) element = Inr i"
    using a IndexOf_frame [of "release_slot p i" p element] by simp
  then have "Deallocate (release_slot p i) element = Inl Died"
    by (simp add: Deallocate_index slot_used_release)
  ultimately show "\<exists>p'. Deallocate p element = Inr p' \<and> \<not> slot_used p' i
      \<and> Deallocate p' element = Inl Died"
    by blast
next
  assume s: "0 < elementSize"
  let ?p0 = "StaticAllocatorBitmap_ctor storage usage 1 elementSize :: 'w word StaticAllocatorBitmap"
  have free: "\<not> slot_used ?p0 0"
    by (simp add: ctor_slot_free)
  then have A: "Allocate ?p0 = (storage, claim_slot ?p0 0)"
    by (simp add: Allocate_seq At_def)
  have I: "IndexOf (claim_slot ?p0 0) storage = Inr 0"
    using s by (simp add: IndexOf_seq)
  then have D1: "Deallocate (claim_slot ?p0 0) storage = Inr (release_slot (claim_slot ?p0 0) 0)"
    by (simp add: Deallocate_index slot_used_claim)
  have "IndexOf (release_slot (claim_slot ?p0 0) 0) storage = Inr 0"
    using s by (simp add: IndexOf_seq)
  then have D2: "Deallocate (release_slot (claim_slot ?p0 0) 0) storage = Inl Died"
    by (simp add: Deallocate_index slot_used_release)
  from A D1 D2 show "\<exists>a p1 p2. Allocate ?p0 = (a, p1) \<and> a = storage
      \<and> Deallocate p1 a = Inr p2 \<and> Deallocate p2 a = Inl Died"
    by simp
qed

theorem C5_Deallocate_double_free_witness:
  "IndexOf pool_0_2 1016 = Inr 2 \<and> slot_used pool_0_2 2
   \<and> (\<exists>p'. Deallocate pool_0_2 1016 = Inr p' \<and> \<not> slot_used p' 2 \<and> Deallocate p' 1016 = Inl Died)
   \<and> IndexOf pool_0_2 1008 = Inr 1 \<and> Deallocate pool_0_2 1008 = Inl Died
   \<and> (\<exists>a p1 p2. Allocate (StaticAllocatorBitmap_ctor 1000 (\<lambda>_. 255 :: 64 word) 1 8) = (a, p1)
         \<and> a = 1000 \<and> Deallocate p1 a = Inr p2 \<and> Deallocate p2 a = Inl Died)"
proof -
  have f: "mCapacity pool_0_2 = 4" "mElements pool_0_2 = 1000" "mElementSize pool_0_2 = 8"
    by (simp_all add: pool_0_2_def)
  have i: "IndexOf pool_0_2 1016 = Inr 2" "IndexOf pool_0_2 1008 = Inr 1"
    by (simp_all add: IndexOf_def f)
  have u: "slot_used pool_0_2 2" "\<not> slot_used pool_0_2 1"
    by (simp_all add: pool_0_2_def slot_used_def kBitChunkSize_def)
  note T = C5_Deallocate_double_free [of pool_0_2 1016 2 8 1000 "\<lambda>_. 255"]
  note U = C5_Deallocate_double_free [of pool_0_2 1008 1 8 1000 "\<lambda>_. 255"]
  have a: "\<exists>p'. Deallocate pool_0_2 1016 = Inr p' \<and> \<not> slot_used p' 2 \<and> Deallocate p' 1016 = Inl Died"
    using T [THEN conjunct2, THEN conjunct1] i(1) u(1) by simp
  have b: "\<exists>a p1 p2. Allocate (StaticAllocatorBitmap_ctor 1000 (\<lambda>_. 255 :: 64 word) 1 8) = (a, p1)
         \<and> a = 1000 \<and> Deallocate p1 a = Inr p2 \<and> Deallocate p2 a = Inl Died"
    using T [THEN conjunct2, THEN conjunct2] by simp
  have c: "Deallocate pool_0_2 1008 = Inl Died"
    using U [THEN conjunct1] i(2) u(2) by simp
  show ?thesis
    by (intro conjI i u a b c)
qed

lemma Allocate_frame:
  assumes "Allocate p = (a, p')"
  shows "mCapacity p' = mCapacity p" "mElements p' = mElements p" "mElementSize p' = mElementSize p"
  using assms by (cases rule: Allocate_cases; simp)+

lemma Deallocate_Inr:
  assumes "Deallocate p element = Inr p'"
  obtains i where "IndexOf p element = Inr i" "slot_used p i" "p' = release_slot p i"
proof (cases "IndexOf p element")
  case (Inl f)
  with assms show ?thesis by (simp add: Deallocate_fault)
next
  case (Inr i)
  with assms have "slot_used p i" "p' = release_slot p i"
    by (auto simp: Deallocate_index split: if_splits)
  with Inr show ?thesis by (rule that)
qed

lemma Deallocate_frame:
  assumes "Deallocate p element = Inr p'"
  shows "mCapacity p' = mCapacity p" "mElements p' = mElements p" "mElementSize p' = mElementSize p"
  using assms by (auto elim!: Deallocate_Inr)

lemma call_step_frame:
  assumes "call_step (p, returned, held) x = Inr (p', returned', held')"
  shows "mCapacity p' = mCapacity p" "mElements p' = mElements p" "mElementSize p' = mElementSize p"
proof -
  have "mCapacity p' = mCapacity p \<and> mElements p' = mElements p \<and> mElementSize p' = mElementSize p"
  proof (cases x)
    case CallAllocate
    with assms show ?thesis
      by (auto split: prod.splits dest: Allocate_frame)
  next
    case (CallDeallocate e)
    with assms show ?thesis
      by (auto split: sum.splits dest: Deallocate_frame)
  qed
  then show "mCapacity p' = mCapacity p" "mElements p' = mElements p" "mElementSize p' = mElementSize p"
    by simp_all
qed

lemma Allocate_in_range:
  assumes "Allocate p = (a, p')" "a \<noteq> nullptr"
  shows "\<exists>i<mCapacity p. a = mElements p + i * mElementSize p"
  using assms by (cases rule: Allocate_cases) (auto simp: At_def mult.commute)

lemma run_returned_in_range:
  assumes "run (p, returned, held) calls = Inr (p', returned', held')"
    and "\<forall>a\<in>set returned. a \<noteq> nullptr \<longrightarrow> (\<exists>i<mCapacity p. a = mElements p + i * mElementSize p)"
  shows "\<forall>a\<in>set returned'. a \<noteq> nullptr \<longrightarrow> (\<exists>i<mCapacity p. a = mElements p + i * mElementSize p)"
  using assms
proof (induction calls arbitrary: p returned held)
  case Nil
  then show ?case by simp
next
  case (Cons x xs)
  from Cons.prems(1) obtain p1 r1 h1 where
    s: "call_step (p, returned, held) x = Inr (p1, r1, h1)" and
    r: "run (p1, r1, h1) xs = Inr (p', returned', held')"
    by (auto split: sum.splits)
  note f = call_step_frame [OF s]
  have "\<forall>a\<in>set r1. a \<noteq> nullptr \<longrightarrow> (\<exists>i<mCapacity p. a = mElements p + i * mElementSize p)"
  proof (cases x)
    case CallAllocate
    with s Cons.prems(2) show ?thesis
      by (auto split: prod.splits dest: Allocate_in_range)
  next
    case (CallDeallocate e)
    with s Cons.prems(2) show ?thesis
      by (auto split: sum.splits)
  qed
  with Cons.IH [OF r] f show ?case by simp
qed

lemma Allocate_first_free:
  assumes "i < mCapacity p" "\<not> slot_used p i" "\<forall>j<i. slot_used p j"
  shows "Allocate p = (At p i, claim_slot p i)"
proof -
  obtain a p' where A: "Allocate p = (a, p')" by (cases "Allocate p")
  then show ?thesis
  proof (cases rule: Allocate_cases)
    case full
    with assms show ?thesis by simp
  next
    case (claimed k)
    with assms have "k = i"
      by (meson linorder_neqE_nat)
    with claimed A show ?thesis by simp
  qed
qed

lemma Allocate_full:
  assumes "\<forall>i<mCapacity p. slot_used p i"
  shows "Allocate p = (nullptr, p)"
proof -
  obtain a p' where A: "Allocate p = (a, p')" by (cases "Allocate p")
  then show ?thesis
  proof (cases rule: Allocate_cases)
    case full
    with A show ?thesis by simp
  next
    case (claimed k)
    with assms show ?thesis by simp
  qed
qed

lemma pool_0_2_fields [simp]:
  "mCapacity pool_0_2 = 4" "mElements pool_0_2 = 1000" "mElementSize pool_0_2 = 8"
  "mAllocated pool_0_2 = 2"
  by (simp_all add: pool_0_2_def)

lemma pool_0_2_used [simp]:
  "slot_used pool_0_2 0" "\<not> slot_used pool_0_2 1" "slot_used pool_0_2 2" "\<not> slot_used pool_0_2 3"
  "\<not> slot_used pool_0_2 (Suc 0)"
  by (simp_all add: pool_0_2_def slot_used_def kBitChunkSize_def)

text \<open>
  C6. Every address other than \<open>nullptr\<close> that \<open>Allocate\<close> returns is
  \<open>storage + i * elementSize\<close> for an index \<open>i\<close> below the capacity: in every sequence
  of \<open>Allocate\<close> and \<open>Deallocate\<close> calls, from any state of the pool, no call returns an
  address outside that range.
\<close>

theorem C6_Allocate_address_in_range:
  "run (p, [], []) calls = Inr (p', returned, held) \<Longrightarrow>
   \<forall>a\<in>set returned. a \<noteq> nullptr \<longrightarrow> (\<exists>i<mCapacity p. a = mElements p + i * mElementSize p)"
  using run_returned_in_range [of p "[]" "[]" calls p' returned held] by simp

theorem C6_Allocate_address_in_range_witness:
  "(\<exists>p' held. run (pool_0_2, [], []) [CallAllocate, CallDeallocate 1000, CallAllocate] =
       Inr (p', [1008, 1000], held))
   \<and> (\<exists>i<mCapacity pool_0_2. 1008 = mElements pool_0_2 + i * mElementSize pool_0_2)
   \<and> (\<exists>i<mCapacity pool_0_2. 1000 = mElements pool_0_2 + i * mElementSize pool_0_2)"
proof -
  let ?p1 = "claim_slot pool_0_2 (Suc 0)"
  let ?p2 = "release_slot ?p1 0"
  let ?p3 = "claim_slot ?p2 0"
  have a1: "Allocate pool_0_2 = (1008, ?p1)"
    using Allocate_first_free [of "Suc 0" pool_0_2] by (simp add: At_def)
  have "IndexOf ?p1 1000 = Inr 0"
    by (simp add: IndexOf_def)
  then have d: "Deallocate ?p1 1000 = Inr ?p2"
    by (simp add: Deallocate_index slot_used_claim)
  have a2: "Allocate ?p2 = (1000, ?p3)"
    using Allocate_first_free [of 0 ?p2] by (simp add: At_def slot_used_release)
  have r: "run (pool_0_2, [], []) [CallAllocate, CallDeallocate 1000, CallAllocate] =
      Inr (?p3, [1008, 1000], [1008, 1000])"
    by (simp add: a1 d a2 nullptr_def)
  from C6_Allocate_address_in_range [OF r]
  have "(\<exists>i<mCapacity pool_0_2. 1008 = mElements pool_0_2 + i * mElementSize pool_0_2)
      \<and> (\<exists>i<mCapacity pool_0_2. 1000 = mElements pool_0_2 + i * mElementSize pool_0_2)"
    by (simp add: nullptr_def)
  with r show ?thesis by blast
qed

lemma pool_full_fields [simp]:
  "mCapacity pool_full = 4" "mElements pool_full = 1000" "mElementSize pool_full = 8"
  "mAllocated pool_full = 4"
  by (simp_all add: pool_full_def)

lemma pool_full_used:
  "i < 4 \<Longrightarrow> slot_used pool_full i"
proof -
  assume "i < 4"
  then have "i = 0 \<or> i = 1 \<or> i = 2 \<or> i = 3" by auto
  then show ?thesis
    by (auto simp: pool_full_def slot_used_def kBitChunkSize_def)
qed

lemma bit_claim_slot:
  fixes p :: "'w::len word StaticAllocatorBitmap"
  shows "bit (mUsage (claim_slot p i) w) n \<longleftrightarrow>
     (w = i div kBitChunkSize TYPE('w) \<and> n = i mod kBitChunkSize TYPE('w)) \<or> bit (mUsage p w) n"
  by (auto simp: claim_slot_def IncreaseUsage_def bit_set_word kBitChunkSize_def)

lemma bit_release_slot:
  fixes p :: "'w::len word StaticAllocatorBitmap"
  shows "bit (mUsage (release_slot p i) w) n \<longleftrightarrow>
     \<not> (w = i div kBitChunkSize TYPE('w) \<and> n = i mod kBitChunkSize TYPE('w)) \<and> bit (mUsage p w) n"
  by (auto simp: release_slot_def DecreaseUsage_def bit_clear_word kBitChunkSize_def)

text \<open>
  C10. Without other threads, an \<open>Allocate\<close> that returns an address changes exactly one
  bit of the bitmap, from 0 to 1, and a \<open>Deallocate\<close> that returns changes exactly one
  bit, from 1 to 0; every other bit of every word, the capacity, the element size and the
  storage address stay as they were, and an \<open>Allocate\<close> that returns \<open>nullptr\<close> leaves
  the whole bitmap as it was. The storage is a buffer in memory, so its address is not
  \<open>nullptr\<close>.
\<close>

theorem C10_one_bit_changes:
  fixes p :: "'w::len word StaticAllocatorBitmap"
  assumes "mElements p \<noteq> nullptr"
  shows "(\<forall>a p'. Allocate p = (a, p') \<longrightarrow>
           mCapacity p' = mCapacity p \<and> mElementSize p' = mElementSize p \<and> mElements p' = mElements p
           \<and> (if a = nullptr then mUsage p' = mUsage p
              else \<exists>w n. n < kBitChunkSize TYPE('w) \<and> \<not> bit (mUsage p w) n \<and> bit (mUsage p' w) n
                     \<and> (\<forall>w' n'. (w', n') \<noteq> (w, n) \<longrightarrow> bit (mUsage p' w') n' = bit (mUsage p w') n')))
       \<and> (\<forall>element p'. Deallocate p element = Inr p' \<longrightarrow>
           mCapacity p' = mCapacity p \<and> mElementSize p' = mElementSize p \<and> mElements p' = mElements p
           \<and> (\<exists>w n. n < kBitChunkSize TYPE('w) \<and> bit (mUsage p w) n \<and> \<not> bit (mUsage p' w) n
                     \<and> (\<forall>w' n'. (w', n') \<noteq> (w, n) \<longrightarrow> bit (mUsage p' w') n' = bit (mUsage p w') n')))"
proof (intro conjI allI impI)
  fix a p'
  assume A: "Allocate p = (a, p')"
  then show "mCapacity p' = mCapacity p" "mElementSize p' = mElementSize p" "mElements p' = mElements p"
    by (simp_all add: Allocate_frame)
  from A show "if a = nullptr then mUsage p' = mUsage p
      else \<exists>w n. n < kBitChunkSize TYPE('w) \<and> \<not> bit (mUsage p w) n \<and> bit (mUsage p' w) n
             \<and> (\<forall>w' n'. (w', n') \<noteq> (w, n) \<longrightarrow> bit (mUsage p' w') n' = bit (mUsage p w') n')"
  proof (cases rule: Allocate_cases)
    case full
    then show ?thesis by simp
  next
    case (claimed i)
    let ?w = "i div kBitChunkSize TYPE('w)" and ?n = "i mod kBitChunkSize TYPE('w)"
    from claimed assms have "a \<noteq> nullptr"
      by (simp add: At_def nullptr_def)
    moreover have "?n < kBitChunkSize TYPE('w)"
      by (simp add: kBitChunkSize_def)
    moreover from claimed have "\<not> bit (mUsage p ?w) ?n"
      by (simp add: slot_used_def)
    moreover from claimed have "bit (mUsage p' ?w) ?n"
      by (simp add: bit_claim_slot)
    moreover from claimed
    have "\<forall>w' n'. (w', n') \<noteq> (?w, ?n) \<longrightarrow> bit (mUsage p' w') n' = bit (mUsage p w') n'"
      by (auto simp: bit_claim_slot)
    ultimately show ?thesis by auto
  qed
next
  fix element p'
  assume D: "Deallocate p element = Inr p'"
  then show "mCapacity p' = mCapacity p" "mElementSize p' = mElementSize p" "mElements p' = mElements p"
    by (simp_all add: Deallocate_frame)
  from D obtain i where i: "slot_used p i" "p' = release_slot p i"
    by (rule Deallocate_Inr)
  let ?w = "i div kBitChunkSize TYPE('w)" and ?n = "i mod kBitChunkSize TYPE('w)"
  have "?n < kBitChunkSize TYPE('w)"
    by (simp add: kBitChunkSize_def)
  moreover from i have "bit (mUsage p ?w) ?n"
    by (simp add: slot_used_def)
  moreover from i have "\<not> bit (mUsage p' ?w) ?n"
    by (simp add: bit_release_slot)
  moreover from i
  have "\<forall>w' n'. (w', n') \<noteq> (?w, ?n) \<longrightarrow> bit (mUsage p' w') n' = bit (mUsage p w') n'"
    by (auto simp: bit_release_slot)
  ultimately show "\<exists>w n. n < kBitChunkSize TYPE('w) \<and> bit (mUsage p w) n \<and> \<not> bit (mUsage p' w) n
      \<and> (\<forall>w' n'. (w', n') \<noteq> (w, n) \<longrightarrow> bit (mUsage p' w') n' = bit (mUsage p w') n')"
    by blast
qed


theorem C10_one_bit_changes_witness:
  "mElements pool_0_2 \<noteq> nullptr
   \<and> Allocate pool_0_2 = (1008, claim_slot pool_0_2 (Suc 0))
   \<and> mCapacity (claim_slot pool_0_2 (Suc 0)) = mCapacity pool_0_2
   \<and> (\<exists>w n. n < kBitChunkSize TYPE(64) \<and> \<not> bit (mUsage pool_0_2 w) n
          \<and> bit (mUsage (claim_slot pool_0_2 (Suc 0)) w) n
          \<and> (\<forall>w' n'. (w', n') \<noteq> (w, n) \<longrightarrow>
                bit (mUsage (claim_slot pool_0_2 (Suc 0)) w') n' = bit (mUsage pool_0_2 w') n'))
   \<and> Deallocate pool_0_2 1016 = Inr (release_slot pool_0_2 2)
   \<and> (\<exists>w n. n < kBitChunkSize TYPE(64) \<and> bit (mUsage pool_0_2 w) n
          \<and> \<not> bit (mUsage (release_slot pool_0_2 2) w) n
          \<and> (\<forall>w' n'. (w', n') \<noteq> (w, n) \<longrightarrow>
                bit (mUsage (release_slot pool_0_2 2) w') n' = bit (mUsage pool_0_2 w') n'))
   \<and> mElements pool_full \<noteq> nullptr
   \<and> Allocate pool_full = (nullptr, pool_full)"
proof -
  have n: "mElements pool_0_2 \<noteq> nullptr" "mElements pool_full \<noteq> nullptr"
    by (simp_all add: nullptr_def)
  have a: "Allocate pool_0_2 = (1008, claim_slot pool_0_2 (Suc 0))"
    using Allocate_first_free [of "Suc 0" pool_0_2] by (simp add: At_def)
  have "IndexOf pool_0_2 1016 = Inr 2"
    by (simp add: IndexOf_def)
  then have d: "Deallocate pool_0_2 1016 = Inr (release_slot pool_0_2 2)"
    by (simp add: Deallocate_index)
  have f: "Allocate pool_full = (nullptr, pool_full)"
    by (rule Allocate_full) (simp add: pool_full_used)
  note T = C10_one_bit_changes [OF n(1)]
  from T [THEN conjunct1, rule_format, OF a]
  have 1: "mCapacity (claim_slot pool_0_2 (Suc 0)) = mCapacity pool_0_2"
    and 2: "\<exists>w n. n < kBitChunkSize TYPE(64) \<and> \<not> bit (mUsage pool_0_2 w) n
          \<and> bit (mUsage (claim_slot pool_0_2 (Suc 0)) w) n
          \<and> (\<forall>w' n'. (w', n') \<noteq> (w, n) \<longrightarrow>
                bit (mUsage (claim_slot pool_0_2 (Suc 0)) w') n' = bit (mUsage pool_0_2 w') n')"
    by (simp_all add: nullptr_def)
  from T [THEN conjunct2, rule_format, OF d]
  have 3: "\<exists>w n. n < kBitChunkSize TYPE(64) \<and> bit (mUsage pool_0_2 w) n
          \<and> \<not> bit (mUsage (release_slot pool_0_2 2) w) n
          \<and> (\<forall>w' n'. (w', n') \<noteq> (w, n) \<longrightarrow>
                bit (mUsage (release_slot pool_0_2 2) w') n' = bit (mUsage pool_0_2 w') n')"
    by simp
  show ?thesis
    by (intro conjI n a d f 1 2 3)
qed

lemma run_append:
  "run c (xs @ ys) = (case run c xs of Inl f \<Rightarrow> Inl f | Inr c' \<Rightarrow> run c' ys)"
  by (induction xs arbitrary: c) (auto split: sum.splits)

lemma At_nonnull:
  "mElements p \<noteq> nullptr \<Longrightarrow> At p i \<noteq> nullptr"
  by (simp add: At_def nullptr_def)

lemma run_allocs:
  fixes p :: "'w::len word StaticAllocatorBitmap"
  assumes "mCapacity p = N" "k \<le> N" "\<forall>i<N. slot_used p i \<longleftrightarrow> i < k" "mElements p \<noteq> nullptr"
  shows "\<exists>p'. run (p, rs, h) (replicate (N - k) CallAllocate) =
             Inr (p', rs @ map (At p) [k..<N], h @ map (At p) [k..<N])
           \<and> mCapacity p' = N \<and> (\<forall>i<N. slot_used p' i) \<and> At p' = At p"
  using assms
proof (induction "N - k" arbitrary: k p rs h)
  case 0
  then show ?case by simp
next
  case (Suc d)
  then have k: "k < N" and d: "d = N - Suc k" by simp_all
  have A: "Allocate p = (At p k, claim_slot p k)"
    using Suc.prems k by (intro Allocate_first_free) simp_all
  have step: "call_step (p, rs, h) CallAllocate = Inr (claim_slot p k, rs @ [At p k], h @ [At p k])"
    using A Suc.prems(4) by (simp add: At_nonnull)
  have "\<exists>p'. run (claim_slot p k, rs @ [At p k], h @ [At p k]) (replicate (N - Suc k) CallAllocate) =
             Inr (p', (rs @ [At p k]) @ map (At (claim_slot p k)) [Suc k..<N],
                      (h @ [At p k]) @ map (At (claim_slot p k)) [Suc k..<N])
           \<and> mCapacity p' = N \<and> (\<forall>i<N. slot_used p' i) \<and> At p' = At (claim_slot p k)"
    using Suc.prems k by (intro Suc.hyps(1) [OF d]) (auto simp: slot_used_claim)
  moreover have "replicate (N - k) CallAllocate = CallAllocate # replicate (N - Suc k) CallAllocate"
    using k by (simp add: Suc_diff_Suc replicate_Suc [symmetric] del: replicate_Suc)
  moreover have "[k..<N] = k # [Suc k..<N]"
    using k by (simp add: upt_conv_Cons)
  ultimately show ?case
    using step by auto
qed


lemma run_fresh:
  fixes usage :: "nat \<Rightarrow> 'w::len word"
  assumes "storage \<noteq> nullptr"
  shows "\<exists>p' held. run (StaticAllocatorBitmap_ctor storage usage N elementSize, [], [])
             (replicate (Suc N) CallAllocate) =
           Inr (p', map (\<lambda>k. storage + elementSize * k) [0..<N] @ [nullptr], held)"
proof -
  define p0 where "p0 = StaticAllocatorBitmap_ctor storage usage N elementSize"
  have "\<forall>i<N. slot_used p0 i \<longleftrightarrow> i < 0"
    by (simp add: p0_def ctor_slot_free)
  with assms(1) obtain p' where
    r: "run (p0, [], []) (replicate (N - 0) CallAllocate) =
          Inr (p', [] @ map (At p0) [0..<N], [] @ map (At p0) [0..<N])"
    and f: "mCapacity p' = N" "\<forall>i<N. slot_used p' i"
    using run_allocs [of p0 N 0 "[]" "[]"] by (auto simp: p0_def)
  from f have "Allocate p' = (nullptr, p')"
    by (intro Allocate_full) simp
  moreover have "replicate (Suc N) CallAllocate = replicate N CallAllocate @ [CallAllocate]"
    by (simp add: replicate_append_same)
  moreover have "At p0 = (\<lambda>k. storage + elementSize * k)"
    by (simp add: fun_eq_iff At_def p0_def)
  ultimately show ?thesis
    using r unfolding p0_def [symmetric] by (simp add: run_append del: replicate_Suc)
qed

text \<open>
  C1. A pool of capacity \<open>N\<close> that has just been constructed, whatever the supplied
  bitmap memory held before, and on which \<open>Deallocate\<close> is never called: each of the first
  \<open>N\<close> calls of \<open>Allocate\<close> returns an address other than \<open>nullptr\<close> in
  \<open>[storage, storage + N * elementSize)\<close> whose offset is a multiple of
  \<open>elementSize\<close>, the \<open>N\<close> addresses are pairwise distinct, and call \<open>N + 1\<close> returns
  \<open>nullptr\<close>. The storage is a buffer in memory (its address is not \<open>nullptr\<close>) and an
  element has at least one byte.
\<close>

theorem C1_capacity_bound:
  fixes usage :: "nat \<Rightarrow> 'w::len word"
  assumes "storage \<noteq> nullptr" "0 < elementSize"
  shows "\<exists>p' returned held.
           run (StaticAllocatorBitmap_ctor storage usage N elementSize, [], [])
               (replicate (Suc N) CallAllocate) = Inr (p', returned, held)
         \<and> length returned = Suc N
         \<and> (\<forall>k<N. returned ! k \<noteq> nullptr
                \<and> storage \<le> returned ! k \<and> returned ! k < storage + N * elementSize
                \<and> (returned ! k - storage) mod elementSize = 0)
         \<and> distinct (take N returned)
         \<and> returned ! N = nullptr"
proof -
  let ?addr = "\<lambda>k. storage + elementSize * k"
  let ?returned = "map ?addr [0..<N] @ [nullptr]"
  from run_fresh [OF assms(1), of usage N elementSize] obtain p' held where
    "run (StaticAllocatorBitmap_ctor storage usage N elementSize, [], [])
       (replicate (Suc N) CallAllocate) = Inr (p', ?returned, held)"
    by blast
  moreover have "length ?returned = Suc N"
    by simp
  moreover have "\<forall>k<N. ?returned ! k \<noteq> nullptr
      \<and> storage \<le> ?returned ! k \<and> ?returned ! k < storage + N * elementSize
      \<and> (?returned ! k - storage) mod elementSize = 0"
  proof (intro allI impI)
    fix k assume k: "k < N"
    then have "?returned ! k = ?addr k"
      by (simp add: nth_append)
    moreover from k assms(2) have "elementSize * k < N * elementSize"
      by (simp add: mult.commute)
    ultimately show "?returned ! k \<noteq> nullptr
      \<and> storage \<le> ?returned ! k \<and> ?returned ! k < storage + N * elementSize
      \<and> (?returned ! k - storage) mod elementSize = 0"
      using assms(1) by (simp add: nullptr_def)
  qed
  moreover have "distinct (take N ?returned)"
  proof -
    have "inj_on ?addr (set [0..<N])"
      using assms(2) by (auto simp: inj_on_def)
    then show ?thesis
      by (simp add: distinct_map)
  qed
  moreover have "?returned ! N = nullptr"
    by (simp add: nth_append)
  ultimately show ?thesis
    by blast
qed


theorem C1_capacity_bound_witness:
  "(1000 :: ptr) \<noteq> nullptr \<and> (0 :: nat) < 8
   \<and> (\<exists>p' returned held.
         run (StaticAllocatorBitmap_ctor 1000 (\<lambda>_. 255 :: 64 word) 4 8, [], [])
             (replicate (Suc 4) CallAllocate) = Inr (p', returned, held)
         \<and> length returned = Suc 4
         \<and> (\<forall>k<4. returned ! k \<noteq> nullptr
                \<and> 1000 \<le> returned ! k \<and> returned ! k < 1000 + 4 * 8
                \<and> (returned ! k - 1000) mod 8 = 0)
         \<and> distinct (take 4 returned)
         \<and> returned ! 4 = nullptr)
   \<and> (\<exists>p' held.
         run (StaticAllocatorBitmap_ctor 1000 (\<lambda>_. 255 :: 64 word) 4 8, [], [])
             (replicate (Suc 4) CallAllocate) = Inr (p', [1000, 1008, 1016, 1024, nullptr], held))"
proof -
  have h: "(1000 :: ptr) \<noteq> nullptr" "(0 :: nat) < 8"
    by (simp_all add: nullptr_def)
  have "[0..<4] = [0, 1, 2, 3]"
    by (simp add: upt_rec)
  with run_fresh [OF h(1), of "\<lambda>_. 255 :: 64 word" 4 8]
  have "\<exists>p' held.
         run (StaticAllocatorBitmap_ctor 1000 (\<lambda>_. 255 :: 64 word) 4 8, [], [])
             (replicate (Suc 4) CallAllocate) = Inr (p', [1000, 1008, 1016, 1024, nullptr], held)"
    by simp
  with h C1_capacity_bound [OF h, of "\<lambda>_. 255 :: 64 word" 4] show ?thesis
    by (intro conjI)
qed

lemma claim_release_usage:
  assumes "slot_used p i"
  shows "mUsage (claim_slot (release_slot p i) i) = mUsage p"
proof
  fix w
  show "mUsage (claim_slot (release_slot p i) i) w = mUsage p w"
  proof (rule bit_eqI)
    fix n
    from assms show "bit (mUsage (claim_slot (release_slot p i) i) w) n = bit (mUsage p w) n"
      by (auto simp: bit_claim_slot bit_release_slot slot_used_def)
  qed
qed

lemma slot_used_cong:
  "mUsage p' = mUsage p \<Longrightarrow> slot_used p' = slot_used p"
  by (simp add: fun_eq_iff slot_used_def)

text \<open>
  C9. Without other threads, on a full pool of capacity 4 and element size 8 (slots at
  offsets 0, 8, 16 and 24), \<open>Deallocate\<close> of the address at offset 8 followed by
  \<open>Allocate\<close> returns the address at offset 8 again, and as many slots are allocated
  after the pair as before it: the bitmap is the same, and so is the counter of live
  slots when it was not 0.
\<close>

theorem C9_round_trip:
  fixes p :: "'w::len word StaticAllocatorBitmap"
  assumes "mCapacity p = 4" "mElementSize p = 8" "\<forall>i<4. slot_used p i"
  shows "\<exists>p1 p2. Deallocate p (mElements p + 8) = Inr p1
           \<and> Allocate p1 = (mElements p + 8, p2)
           \<and> mUsage p2 = mUsage p
           \<and> length (filter (slot_used p2) [0..<mCapacity p2]) =
               length (filter (slot_used p) [0..<mCapacity p])
           \<and> (0 < mAllocated p \<longrightarrow> mAllocated p2 = mAllocated p)"
proof -
  let ?p1 = "release_slot p 1"
  let ?p2 = "claim_slot ?p1 1"
  have "IndexOf p (mElements p + 8) = Inr 1"
    using assms by (simp add: IndexOf_def)
  then have D: "Deallocate p (mElements p + 8) = Inr ?p1"
    using assms by (simp add: Deallocate_index)
  have "Allocate ?p1 = (At ?p1 1, ?p2)"
    using assms by (intro Allocate_first_free) (simp_all add: slot_used_release)
  then have A: "Allocate ?p1 = (mElements p + 8, ?p2)"
    using assms by (simp add: At_def)
  have U: "mUsage ?p2 = mUsage p"
    using assms by (intro claim_release_usage) simp
  then have "slot_used ?p2 = slot_used p"
    by (rule slot_used_cong)
  then have C: "length (filter (slot_used ?p2) [0..<mCapacity ?p2]) =
      length (filter (slot_used p) [0..<mCapacity p])"
    by simp
  have M: "0 < mAllocated p \<longrightarrow> mAllocated ?p2 = mAllocated p"
    by simp
  show ?thesis
    by (intro exI [of _ ?p1] exI [of _ ?p2] conjI D A U C M)
qed

theorem C9_round_trip_witness:
  "mCapacity pool_full = 4 \<and> mElementSize pool_full = 8
   \<and> slot_used pool_full 0 \<and> slot_used pool_full 1 \<and> slot_used pool_full 2 \<and> slot_used pool_full 3
   \<and> (\<exists>p1 p2. Deallocate pool_full 1008 = Inr p1
           \<and> Allocate p1 = (1008, p2)
           \<and> mUsage p2 = mUsage pool_full
           \<and> length (filter (slot_used p2) [0..<mCapacity p2]) = 4
           \<and> mAllocated p2 = 4)"
proof -
  have u: "\<forall>i<4. slot_used pool_full i"
    by (simp add: pool_full_used)
  have "[0..<4] = [0, 1, 2, 3]"
    by (simp add: upt_rec)
  then have "length (filter (slot_used pool_full) [0..<mCapacity pool_full]) = 4"
    by (simp add: pool_full_used)
  with C9_round_trip [of pool_full, OF _ _ u]
  have "\<exists>p1 p2. Deallocate pool_full 1008 = Inr p1
           \<and> Allocate p1 = (1008, p2)
           \<and> mUsage p2 = mUsage pool_full
           \<and> length (filter (slot_used p2) [0..<mCapacity p2]) = 4
           \<and> mAllocated p2 = 4"
    by simp
  then show ?thesis
    by (simp add: pool_full_used)
qed

subsection \<open>Enumeration visits the occupied slots in order\<close>

text \<open>
  The enumeration as the design describes it: the predicate is called on the given
  addresses one after the other, until it returns false. \<open>logged\<close> is a predicate
  together with a record of its calls: the context and the address it was given and what
  it returned.
\<close>

fun visit :: "('c, 's) Lambda \<Rightarrow> 'c \<Rightarrow> ptr list \<Rightarrow> 's \<Rightarrow> bool \<times> 's" where
  "visit lambda ctxt [] s = (True, s)"
| "visit lambda ctxt (a # as) s =
     (case lambda ctxt a s of
        (False, s') \<Rightarrow> (False, s')
      | (True, s') \<Rightarrow> visit lambda ctxt as s')"

definition logged :: "('c, 's) Lambda \<Rightarrow> ('c, 's \<times> ('c \<times> ptr \<times> bool) list) Lambda" where
  "logged lambda ctxt a = (\<lambda>(s, log).
     case lambda ctxt a s of (b, s') \<Rightarrow> (b, (s', log @ [(ctxt, a, b)])))"

lemma visit_append:
  "visit lambda ctxt (xs @ ys) s =
     (case visit lambda ctxt xs s of
        (False, s') \<Rightarrow> (False, s')
      | (True, s') \<Rightarrow> visit lambda ctxt ys s')"
  by (induction xs arbitrary: s) (auto split: prod.splits bool.splits)

lemma ForEach_bits_seq:
  fixes p :: "'w::len word StaticAllocatorBitmap"
  assumes "n = min (kBitChunkSize TYPE('w)) (mCapacity p - word * kBitChunkSize TYPE('w))"
  shows "ForEach_bits p ctxt lambda word (mUsage p word) offset s =
     visit lambda ctxt
       (map (At p) (filter (slot_used p)
          [word * kBitChunkSize TYPE('w) + offset ..< word * kBitChunkSize TYPE('w) + n])) s"
proof (induction "n - offset" arbitrary: offset s)
  case 0
  then have "\<not> (offset < kBitChunkSize TYPE('w) \<and> offset + word * kBitChunkSize TYPE('w) < mCapacity p)"
    using assms by auto
  with 0 show ?case by (subst ForEach_bits.simps) auto
next
  case (Suc k)
  then have r: "offset < kBitChunkSize TYPE('w)" "offset + word * kBitChunkSize TYPE('w) < mCapacity p"
    and k: "k = n - (offset + 1)" and lt: "offset < n"
    using assms by auto
  have idx: "(word * kBitChunkSize TYPE('w) + offset) div kBitChunkSize TYPE('w) = word"
    "(word * kBitChunkSize TYPE('w) + offset) mod kBitChunkSize TYPE('w) = offset"
    using r(1) by simp_all
  have upt: "[word * kBitChunkSize TYPE('w) + offset ..< word * kBitChunkSize TYPE('w) + n] =
     (word * kBitChunkSize TYPE('w) + offset) # [word * kBitChunkSize TYPE('w) + (offset + 1) ..< word * kBitChunkSize TYPE('w) + n]"
    using lt by (simp add: upt_conv_Cons)
  have u: "slot_used p (word * kBitChunkSize TYPE('w) + offset) \<longleftrightarrow> bit (mUsage p word) offset"
    unfolding slot_used_def idx ..
  show ?case
    using Suc.hyps(1) [OF k] r
    by (subst ForEach_bits.simps)
       (simp add: test_bit upt u del: upt_Suc split: prod.splits bool.splits)
qed

lemma ForEach_words_seq:
  fixes p :: "'w::len word StaticAllocatorBitmap"
  shows "ForEach_words p ctxt lambda word s =
     visit lambda ctxt
       (map (At p) (filter (slot_used p) [word * kBitChunkSize TYPE('w) ..< mCapacity p])) s"
proof (induction "mCapacity p - word * kBitChunkSize TYPE('w)" arbitrary: word s rule: less_induct)
  case less
  let ?W = "kBitChunkSize TYPE('w)"
  show ?case
  proof (cases "word * ?W < mCapacity p")
    case False
    then show ?thesis by (subst ForEach_words.simps) simp
  next
    case True
    define n where "n = min ?W (mCapacity p - word * ?W)"
    have W: "0 < ?W" by (simp add: kBitChunkSize_def)
    have split: "[word * ?W ..< mCapacity p] = [word * ?W + 0 ..< word * ?W + n] @ [(word + 1) * ?W ..< mCapacity p]"
    proof (cases "?W \<le> mCapacity p - word * ?W")
      case True
      then have "n = ?W" by (simp add: n_def)
      moreover from True \<open>word * ?W < mCapacity p\<close> obtain d where "mCapacity p = (word * ?W + ?W) + d"
        using le_iff_add [of "word * ?W + ?W" "mCapacity p"] by auto
      ultimately show ?thesis
        using upt_add_eq_append [of "word * ?W" "word * ?W + ?W" d] by (simp add: add.commute)
    next
      case False
      then have "n = mCapacity p - word * ?W" by (simp add: n_def)
      with False \<open>word * ?W < mCapacity p\<close> show ?thesis by simp
    qed
    have IH: "ForEach_words p ctxt lambda (word + 1) s' =
       visit lambda ctxt (map (At p) (filter (slot_used p) [(word + 1) * ?W ..< mCapacity p])) s'" for s'
      using True W by (intro less) (simp add: diff_less_mono2)
    show ?thesis
      using True IH
      by (subst ForEach_words.simps)
         (simp add: load_def ForEach_bits_seq [OF n_def, of _ _ 0] split visit_append
               split: prod.splits bool.splits)
  qed
qed

lemma ForEachActiveObjectInner_seq:
  "ForEachActiveObjectInner p ctxt lambda s =
     visit lambda ctxt (map (At p) (filter (slot_used p) [0 ..< mCapacity p])) s"
  using ForEach_words_seq [of p ctxt lambda 0 s] by (simp add: ForEachActiveObjectInner_def)

lemma At_inj:
  "0 < mElementSize p \<Longrightarrow> At p i = At p j \<longleftrightarrow> i = j"
  by (simp add: At_def)

lemma At_cong:
  "mElements p' = mElements p \<Longrightarrow> mElementSize p' = mElementSize p \<Longrightarrow> At p' = At p"
  by (simp add: At_def fun_eq_iff)

definition held_are_used :: "'w::len word StaticAllocatorBitmap \<Rightarrow> ptr list \<Rightarrow> bool" where
  "held_are_used p held \<longleftrightarrow>
     distinct held \<and> set held = At p ` {i. i < mCapacity p \<and> slot_used p i}"

lemma call_step_held:
  assumes "call_step (p, returned, held) x = Inr (p', returned', held')"
    and "0 < mElementSize p" "mElements p \<noteq> nullptr" "held_are_used p held"
  shows "held_are_used p' held'"
proof (cases x)
  case CallAllocate
  obtain a q where A: "Allocate p = (a, q)" by (cases "Allocate p")
  from A show ?thesis
  proof (cases rule: Allocate_cases)
    case full
    with assms CallAllocate A show ?thesis by simp
  next
    case (claimed i)
    have "At p i \<notin> At p ` {i. i < mCapacity p \<and> slot_used p i}"
      using claimed(2) assms(2) by (auto simp: At_inj)
    moreover have "{j. j < mCapacity p \<and> (j = i \<or> slot_used p j)} =
        insert i {i. i < mCapacity p \<and> slot_used p i}"
      using claimed(1) by auto
    ultimately show ?thesis
      using assms CallAllocate A claimed
      by (auto simp: held_are_used_def At_nonnull slot_used_claim)
  qed
next
  case (CallDeallocate e)
  with assms(1) obtain q where D: "Deallocate p e = Inr q" and q: "p' = q" "held' = removeAll e held"
    by (auto split: sum.splits)
  from D obtain i where i: "IndexOf p e = Inr i" "slot_used p i" "q = release_slot p i"
    by (rule Deallocate_Inr)
  from i(1) have e: "e = At p i" and "i < mCapacity p"
    by (simp_all add: IndexOf_Inr)
  have "At p ` {j. j < mCapacity p \<and> j \<noteq> i \<and> slot_used p j} =
      At p ` {j. j < mCapacity p \<and> slot_used p j} - {At p i}"
    using assms(2) by (auto simp: At_inj)
  then show ?thesis
    using assms(4) q i(3) e
    by (simp add: held_are_used_def distinct_removeAll slot_used_release)
qed

lemma run_held:
  assumes "run (p, returned, held) calls = Inr (p', returned', held')"
    and "0 < mElementSize p" "mElements p \<noteq> nullptr" "held_are_used p held"
  shows "held_are_used p' held' \<and> mCapacity p' = mCapacity p \<and> mElements p' = mElements p
         \<and> mElementSize p' = mElementSize p"
  using assms
proof (induction calls arbitrary: p returned held)
  case Nil
  then show ?case by simp
next
  case (Cons x xs)
  from Cons.prems(1) obtain p1 r1 h1 where
    s: "call_step (p, returned, held) x = Inr (p1, r1, h1)" and
    r: "run (p1, r1, h1) xs = Inr (p', returned', held')"
    by (auto split: sum.splits)
  note f = call_step_frame [OF s]
  have "held_are_used p1 h1"
    using s Cons.prems(2-4) by (rule call_step_held)
  with Cons.IH [OF r] f Cons.prems(2,3) show ?case by simp
qed

lemma fresh_held:
  "held_are_used (StaticAllocatorBitmap_ctor storage usage capacity elementSize) []"
  by (auto simp: held_are_used_def ctor_slot_free)

lemma held_occupied:
  assumes "held_are_used p held" "0 < mElementSize p"
  shows "length (filter (slot_used p) [0..<mCapacity p]) = length held"
    and "set (map (At p) (filter (slot_used p) [0..<mCapacity p])) = set held"
proof -
  let ?occ = "filter (slot_used p) [0..<mCapacity p]"
  have s: "set ?occ = {i. i < mCapacity p \<and> slot_used p i}"
    by auto
  with assms(1) show *: "set (map (At p) ?occ) = set held"
    by (simp add: held_are_used_def)
  have "inj_on (At p) (set ?occ)"
    using assms(2) by (auto simp: inj_on_def At_inj)
  then have "distinct (map (At p) ?occ)"
    by (simp add: distinct_map)
  then have "length (map (At p) ?occ) = card (set (map (At p) ?occ))"
    by (simp only: distinct_card)
  also have "\<dots> = card (set held)"
    by (simp only: *)
  also have "\<dots> = length held"
  proof -
    from assms(1) have "distinct held" by (simp add: held_are_used_def)
    then show ?thesis by (rule distinct_card)
  qed
  finally show "length ?occ = length held"
    by simp
qed

lemma visit_logged_all:
  assumes "\<forall>a s. fst (lambda ctxt a s)"
  shows "\<exists>s'. visit (logged lambda) ctxt as (s, log) =
           (True, (s', log @ map (\<lambda>a. (ctxt, a, True)) as))"
proof (induction as arbitrary: s log)
  case Nil
  show ?case by simp
next
  case (Cons a as)
  obtain b s1 where l: "lambda ctxt a s = (b, s1)" by (cases "lambda ctxt a s")
  with assms have "b" by (metis fst_conv)
  with l Cons [of s1 "log @ [(ctxt, a, True)]"] show ?case
    by (simp add: logged_def)
qed

text \<open>
  C7. With no other thread at work, on a pool in which \<open>K\<close> slots are allocated: the
  enumeration calls the predicate \<open>K\<close> times, once for each slot whose bit is set, in
  increasing order of the slot index, with the context of the caller and the address of
  the slot, and returns true (completed) when the predicate never returns false. The
  pool is any one that a caller has reached from the constructor by \<open>Allocate\<close> and
  \<open>Deallocate\<close> calls; the \<open>K\<close> addresses are those that \<open>Allocate\<close> has returned and
  that have not been passed to \<open>Deallocate\<close> since.
\<close>

theorem C7_enumerate_complete:
  fixes usage :: "nat \<Rightarrow> 'w::len word" and lambda :: "('c, 's) Lambda"
  assumes "storage \<noteq> nullptr" "0 < elementSize"
    and "run (StaticAllocatorBitmap_ctor storage usage capacity elementSize, [], []) calls =
           Inr (p, returned, held)"
    and "\<forall>a s. fst (lambda ctxt a s)"
  shows "(\<exists>s'. ForEachActiveObjectInner p ctxt (logged lambda) (s, []) =
               (True, (s', map (\<lambda>i. (ctxt, At p i, True)) (filter (slot_used p) [0..<mCapacity p]))))
         \<and> sorted_wrt (<) (filter (slot_used p) [0..<mCapacity p])
         \<and> length (filter (slot_used p) [0..<mCapacity p]) = length held
         \<and> At p ` set (filter (slot_used p) [0..<mCapacity p]) = set held"
proof -
  let ?p0 = "StaticAllocatorBitmap_ctor storage usage capacity elementSize"
  let ?occ = "filter (slot_used p) [0..<mCapacity p]"
  have "held_are_used p held \<and> mCapacity p = mCapacity ?p0 \<and> mElements p = mElements ?p0
      \<and> mElementSize p = mElementSize ?p0"
    using assms(3) by (rule run_held) (simp_all add: assms fresh_held)
  then have h: "held_are_used p held" and s: "0 < mElementSize p"
    using assms(2) by simp_all
  from assms(4) have "\<exists>s'. visit (logged lambda) ctxt (map (At p) ?occ) (s, []) =
      (True, (s', [] @ map (\<lambda>a. (ctxt, a, True)) (map (At p) ?occ)))"
    by (rule visit_logged_all)
  then have "\<exists>s'. ForEachActiveObjectInner p ctxt (logged lambda) (s, []) =
      (True, (s', map (\<lambda>i. (ctxt, At p i, True)) ?occ))"
    by (simp add: ForEachActiveObjectInner_seq comp_def)
  moreover have "sorted_wrt (<) ?occ"
    by (simp add: sorted_wrt_filter)
  moreover note held_occupied(1) [OF h s]
  moreover from held_occupied(2) [OF h s] have "At p ` set ?occ = set held"
    by simp
  ultimately show ?thesis
    by (intro conjI)
qed

theorem C7_enumerate_complete_witness:
  "(1000 :: ptr) \<noteq> nullptr \<and> (0 :: nat) < 8
   \<and> (\<forall>a s. fst (collect 7 a s))
   \<and> (\<exists>p returned.
        run (StaticAllocatorBitmap_ctor 1000 (\<lambda>_. 255 :: 64 word) 4 8, [], [])
            [CallAllocate, CallAllocate, CallDeallocate 1000] = Inr (p, returned, [1008])
        \<and> ForEachActiveObjectInner p 7 (logged collect) ([], []) =
             (True, ([1008], [(7, 1008, True)]))
        \<and> length (filter (slot_used p) [0..<mCapacity p]) = length [1008 :: ptr]
        \<and> At p ` set (filter (slot_used p) [0..<mCapacity p]) = set [1008])"
proof -
  let ?p0 = "StaticAllocatorBitmap_ctor 1000 (\<lambda>_. 255 :: 64 word) 4 8"
  let ?p1 = "claim_slot ?p0 0"
  let ?p2 = "claim_slot ?p1 (Suc 0)"
  let ?p3 = "release_slot ?p2 0"
  have h: "(1000 :: ptr) \<noteq> nullptr" "(0 :: nat) < 8"
    by (simp_all add: nullptr_def)
  have l: "\<forall>a s. fst (collect 7 a s)"
    by (simp add: collect_def)
  have a1: "Allocate ?p0 = (1000, ?p1)"
    using Allocate_first_free [of 0 ?p0] by (simp add: At_def ctor_slot_free)
  have a2: "Allocate ?p1 = (1008, ?p2)"
    using Allocate_first_free [of "Suc 0" ?p1] by (simp add: At_def ctor_slot_free slot_used_claim)
  have "IndexOf ?p2 1000 = Inr 0"
    by (simp add: IndexOf_def)
  then have d: "Deallocate ?p2 1000 = Inr ?p3"
    by (simp add: Deallocate_index slot_used_claim)
  have r: "run (?p0, [], []) [CallAllocate, CallAllocate, CallDeallocate 1000] =
      Inr (?p3, [1000, 1008], [1008])"
    by (simp add: a1 a2 d nullptr_def)
  have "[0..<4] = [0, Suc 0, 2, 3]"
    by (simp add: upt_rec)
  then have occ: "filter (slot_used ?p3) [0..<4] = [Suc 0]"
    by (simp add: slot_used_release slot_used_claim ctor_slot_free)
  note T = C7_enumerate_complete [of 1000 8 "\<lambda>_. 255 :: 64 word" 4 _ ?p3 "[1000, 1008]" "[1008]" collect 7 "[]",
      OF h r l]
  have e: "ForEachActiveObjectInner ?p3 7 (logged collect) ([], []) =
      (True, ([1008], [(7, 1008, True)]))"
    using T [THEN conjunct1]
    by (simp add: occ At_def ForEachActiveObjectInner_seq logged_def collect_def)
  from T have "length (filter (slot_used ?p3) [0..<mCapacity ?p3]) = length [1008 :: ptr]"
    and "At ?p3 ` set (filter (slot_used ?p3) [0..<mCapacity ?p3]) = set [1008]"
    by (simp_all add: occ)
  with h l r e show ?thesis
    by (intro conjI exI [of _ ?p3] exI [of _ "[1000, 1008]"])
qed

lemma logged_apply:
  "logged lambda ctxt a (s, log) =
     (case lambda ctxt a s of (b, s') \<Rightarrow> (b, (s', log @ [(ctxt, a, b)])))"
  by (simp add: logged_def)

lemma visit_logged:
  assumes "visit (logged lambda) ctxt as (s, log0) = (b, (s', log))"
  shows "\<exists>new. log = log0 @ new
      \<and> map (\<lambda>(c, a, r). (c, a)) new = map (Pair ctxt) (take (length new) as)
      \<and> (\<forall>j<length new. \<not> snd (snd (new ! j)) \<longrightarrow> Suc j = length new \<and> \<not> b)
      \<and> (b \<longrightarrow> length new = length as)
      \<and> (\<not> b \<longrightarrow> new \<noteq> [] \<and> \<not> snd (snd (last new)))
      \<and> visit lambda ctxt as s = (b, s')"
  using assms
proof (induction as arbitrary: s log0)
  case Nil
  then show ?case by simp
next
  case (Cons a as)
  obtain r s1 where l: "lambda ctxt a s = (r, s1)" by (cases "lambda ctxt a s")
  show ?case
  proof (cases r)
    case False
    with l Cons.prems have "b = False" "s' = s1" "log = log0 @ [(ctxt, a, False)]"
      by (simp_all add: logged_apply)
    with l False show ?thesis
      by (intro exI [of _ "[(ctxt, a, False)]"] conjI) simp_all
  next
    case True
    with l Cons.prems have "visit (logged lambda) ctxt as (s1, log0 @ [(ctxt, a, True)]) = (b, (s', log))"
      by (simp add: logged_apply)
    from Cons.IH [OF this] obtain new where new:
      "log = (log0 @ [(ctxt, a, True)]) @ new"
      "map (\<lambda>(c, a, r). (c, a)) new = map (Pair ctxt) (take (length new) as)"
      "\<forall>j<length new. \<not> snd (snd (new ! j)) \<longrightarrow> Suc j = length new \<and> \<not> b"
      "b \<longrightarrow> length new = length as"
      "\<not> b \<longrightarrow> new \<noteq> [] \<and> \<not> snd (snd (last new))"
      "visit lambda ctxt as s1 = (b, s')"
      by blast
    have 3: "\<forall>j<length ((ctxt, a, True) # new).
        \<not> snd (snd (((ctxt, a, True) # new) ! j)) \<longrightarrow> Suc j = length ((ctxt, a, True) # new) \<and> \<not> b"
    proof (intro allI impI)
      fix j
      assume j: "j < length ((ctxt, a, True) # new)" "\<not> snd (snd (((ctxt, a, True) # new) ! j))"
      then obtain j' where "j = Suc j'" by (cases j) auto
      with j new(3) show "Suc j = length ((ctxt, a, True) # new) \<and> \<not> b" by simp
    qed
    have 1: "log = log0 @ (ctxt, a, True) # new"
      using new(1) by simp
    have 2: "map (\<lambda>(c, a, r). (c, a)) ((ctxt, a, True) # new) =
        map (Pair ctxt) (take (length ((ctxt, a, True) # new)) (a # as))"
      using new(2) by simp
    have 4: "b \<longrightarrow> length ((ctxt, a, True) # new) = length (a # as)"
      using new(4) by simp
    have 5: "\<not> b \<longrightarrow> (ctxt, a, True) # new \<noteq> [] \<and> \<not> snd (snd (last ((ctxt, a, True) # new)))"
      using new(5) by simp
    have 6: "visit lambda ctxt (a # as) s = (b, s')"
      using new(6) l True by simp
    show ?thesis
      by (intro exI [of _ "(ctxt, a, True) # new"] conjI 1 2 3 4 5 6)
  qed
qed


text \<open>
  C8. The enumeration stops at the first call of the predicate that returns false: the
  record of the calls made by an enumeration has a false return, if at all, in its last
  entry only, and then the enumeration returns false (stopped early); it returns false
  only after such a call. The calls are made on the occupied slots in increasing order,
  with none skipped. When the predicate returns false on the first occupied slot, that
  is the one call made. Recording the calls does not change the result.
\<close>

theorem C8_enumerate_stops_early:
  fixes p :: "'w::len word StaticAllocatorBitmap" and lambda :: "('c, 's) Lambda"
  assumes "ForEachActiveObjectInner p ctxt (logged lambda) (s, []) = (completed, (s', log))"
  shows "map (\<lambda>(c, a, r). (c, a)) log =
           map (\<lambda>i. (ctxt, At p i)) (take (length log) (filter (slot_used p) [0..<mCapacity p]))
       \<and> (\<forall>j<length log. \<not> snd (snd (log ! j)) \<longrightarrow> Suc j = length log \<and> \<not> completed)
       \<and> (\<not> completed \<longrightarrow> log \<noteq> [] \<and> \<not> snd (snd (last log)))
       \<and> (completed \<longrightarrow> length log = length (filter (slot_used p) [0..<mCapacity p]))
       \<and> ForEachActiveObjectInner p ctxt lambda s = (completed, s')
       \<and> (\<forall>i rest s1. filter (slot_used p) [0..<mCapacity p] = i # rest
              \<and> lambda ctxt (At p i) s = (False, s1) \<longrightarrow>
            \<not> completed \<and> log = [(ctxt, At p i, False)])"
proof -
  let ?occ = "filter (slot_used p) [0..<mCapacity p]"
  from assms have v: "visit (logged lambda) ctxt (map (At p) ?occ) (s, []) = (completed, (s', log))"
    by (simp add: ForEachActiveObjectInner_seq)
  from visit_logged [OF v] have
    1: "map (\<lambda>(c, a, r). (c, a)) log = map (Pair ctxt) (take (length log) (map (At p) ?occ))"
    and 2: "\<forall>j<length log. \<not> snd (snd (log ! j)) \<longrightarrow> Suc j = length log \<and> \<not> completed"
    and 3: "\<not> completed \<longrightarrow> log \<noteq> [] \<and> \<not> snd (snd (last log))"
    and 4: "completed \<longrightarrow> length log = length (map (At p) ?occ)"
    and 5: "visit lambda ctxt (map (At p) ?occ) s = (completed, s')"
    by auto
  from 1 have 1: "map (\<lambda>(c, a, r). (c, a)) log = map (\<lambda>i. (ctxt, At p i)) (take (length log) ?occ)"
    by (simp add: take_map comp_def)
  from 4 have 4: "completed \<longrightarrow> length log = length ?occ"
    by simp
  from 5 have 5: "ForEachActiveObjectInner p ctxt lambda s = (completed, s')"
    by (simp add: ForEachActiveObjectInner_seq)
  have 6: "\<forall>i rest s1. ?occ = i # rest \<and> lambda ctxt (At p i) s = (False, s1) \<longrightarrow>
      \<not> completed \<and> log = [(ctxt, At p i, False)]"
  proof (intro allI impI)
    fix i rest s1
    assume "?occ = i # rest \<and> lambda ctxt (At p i) s = (False, s1)"
    with v show "\<not> completed \<and> log = [(ctxt, At p i, False)]"
      by (auto simp: logged_apply)
  qed
  show ?thesis
    by (intro conjI 1 2 3 4 5 6)
qed


theorem C8_enumerate_stops_early_witness:
  "ForEachActiveObjectInner pool_0_2 1000 (logged until) ([], []) =
     (False, ([1000], [(1000, 1000, False)]))
   \<and> ForEachActiveObjectInner pool_0_2 1000 until [] = (False, [1000])
   \<and> ForEachActiveObjectInner pool_0_2 1016 (logged until) ([], []) =
     (False, ([1016, 1000], [(1016, 1000, True), (1016, 1016, False)]))
   \<and> ForEachActiveObjectInner pool_0_2 1016 until [] = (False, [1016, 1000])
   \<and> filter (slot_used pool_0_2) [0..<mCapacity pool_0_2] = [0, 2]"
proof -
  have "[0..<4] = [0, Suc 0, 2, 3]"
    by (simp add: upt_rec)
  then have occ: "filter (slot_used pool_0_2) [0..<4] = [0, 2]"
    by simp
  have e1: "ForEachActiveObjectInner pool_0_2 1000 (logged until) ([], []) =
      (False, ([1000], [(1000, 1000, False)]))"
    by (simp add: ForEachActiveObjectInner_seq occ At_def logged_apply until_def)
  have e2: "ForEachActiveObjectInner pool_0_2 1016 (logged until) ([], []) =
      (False, ([1016, 1000], [(1016, 1000, True), (1016, 1016, False)]))"
    by (simp add: ForEachActiveObjectInner_seq occ At_def logged_apply until_def)
  from C8_enumerate_stops_early [OF e1]
  have u1: "ForEachActiveObjectInner pool_0_2 1000 until [] = (False, [1000])"
    by blast
  from C8_enumerate_stops_early [OF e2]
  have u2: "ForEachActiveObjectInner pool_0_2 1016 until [] = (False, [1016, 1000])"
    by blast
  from occ have o: "filter (slot_used pool_0_2) [0..<mCapacity pool_0_2] = [0, 2]"
    by simp
  show ?thesis
    by (intro conjI e1 u1 e2 u2 o)
qed

section \<open>Allocate among other threads\<close>

subsection \<open>Allocate, one access to the bitmap at a time\<close>

text \<open>
  Other threads run between two accesses of a call to the bitmap, so the method is
  also written as the steps it takes, each with one access to the shared bitmap at most.
  The program points are: \<open>AtWord word\<close>, the test of the outer loop (line 38) and the
  load of the word (line 41); \<open>AtBit word value offset\<close>, the test of the inner loop
  (line 42) and the test of the bit in the loaded value (line 44);
  \<open>AtExchange word value offset\<close>, the \<open>compare_exchange_strong\<close> (line 46);
  \<open>AtIncreaseUsage word offset\<close>, lines 48 and 49 after an exchange that succeeded;
  \<open>AtReload word offset\<close>, the load after an exchange that failed (line 53) and the
  increment of the inner loop; \<open>Returned a\<close>, the method has returned \<open>a\<close>.
\<close>

datatype 'chunk Allocate_pc =
    AtWord nat
  | AtBit nat 'chunk nat
  | AtExchange nat 'chunk nat
  | AtIncreaseUsage nat nat
  | AtReload nat nat
  | Returned ptr

fun Allocate_step ::
  "'w::len word StaticAllocatorBitmap \<Rightarrow> 'w word Allocate_pc \<Rightarrow> 'w word Allocate_pc \<times> 'w word StaticAllocatorBitmap" where
  "Allocate_step p (AtWord word) =
     (if word * kBitChunkSize TYPE('w) < mCapacity p
      then (AtBit word (load (mUsage p) word) 0, p)
      else (Returned nullptr, p))"
| "Allocate_step p (AtBit word value offset) =
     (if offset < kBitChunkSize TYPE('w) \<and> offset + word * kBitChunkSize TYPE('w) < mCapacity p
      then
        if value AND push_bit offset kBit1 = 0
        then (AtExchange word value offset, p)
        else (AtBit word value (offset + 1), p)
      else (AtWord (word + 1), p))"
| "Allocate_step p (AtExchange word value offset) =
     (case compare_exchange_strong (mUsage p) word value (value OR push_bit offset kBit1) of
        (True, _, u) \<Rightarrow> (AtIncreaseUsage word offset, p\<lparr>mUsage := u\<rparr>)
      | (False, _, u) \<Rightarrow> (AtReload word offset, p\<lparr>mUsage := u\<rparr>))"
| "Allocate_step p (AtIncreaseUsage word offset) =
     (Returned (At p (word * kBitChunkSize TYPE('w) + offset)), IncreaseUsage p)"
| "Allocate_step p (AtReload word offset) =
     (AtBit word (load (mUsage p) word) (offset + 1), p)"
| "Allocate_step p (Returned a) = (Returned a, p)"

text \<open>
  Run with no other thread in between, the steps are the method \<open>Allocate\<close> above.
\<close>

fun Allocate_steps ::
  "nat \<Rightarrow> 'w::len word StaticAllocatorBitmap \<Rightarrow> 'w word Allocate_pc \<Rightarrow> 'w word Allocate_pc \<times> 'w word StaticAllocatorBitmap" where
  "Allocate_steps 0 p pc = (pc, p)"
| "Allocate_steps (Suc n) p pc = (case Allocate_step p pc of (pc', p') \<Rightarrow> Allocate_steps n p' pc')"

lemma Allocate_steps_add:
  "Allocate_steps (m + n) p pc = (case Allocate_steps m p pc of (pc', p') \<Rightarrow> Allocate_steps n p' pc')"
  by (induction m arbitrary: p pc) (auto split: prod.splits)

lemma Allocate_steps_Returned [simp]:
  "Allocate_steps n p (Returned a) = (Returned a, p)"
  by (induction n) auto

lemma Allocate_steps_bits:
  fixes p :: "'w::len word StaticAllocatorBitmap"
  shows "\<exists>n. Allocate_steps n p (AtBit word v offset) =
     (case Allocate_bits p word v offset of
        (Some a, p') \<Rightarrow> (Returned a, p')
      | (None, p') \<Rightarrow> (AtWord (word + 1), p'))"
proof (induction "kBitChunkSize TYPE('w) - offset" arbitrary: offset v)
  case 0
  then have o: "\<not> offset < kBitChunkSize TYPE('w)"
    by simp
  then have "Allocate_steps (Suc 0) p (AtBit word v offset) = (AtWord (word + 1), p)"
    by simp
  moreover from o have "Allocate_bits p word v offset = (None, p)"
    by (simp add: Allocate_bits_end)
  ultimately have "Allocate_steps (Suc 0) p (AtBit word v offset) =
     (case Allocate_bits p word v offset of
        (Some a, p') \<Rightarrow> (Returned a, p')
      | (None, p') \<Rightarrow> (AtWord (word + 1), p'))"
    by simp
  then show ?case ..
next
  case (Suc k)
  then have k: "k = kBitChunkSize TYPE('w) - (offset + 1)" and o: "offset < kBitChunkSize TYPE('w)"
    by simp_all
  show ?case
  proof (cases "offset + word * kBitChunkSize TYPE('w) < mCapacity p")
    case False
    then have "Allocate_steps (Suc 0) p (AtBit word v offset) = (AtWord (word + 1), p)"
      by simp
    moreover from False have "Allocate_bits p word v offset = (None, p)"
      by (simp add: Allocate_bits_end)
    ultimately have "Allocate_steps (Suc 0) p (AtBit word v offset) =
       (case Allocate_bits p word v offset of
          (Some a, p') \<Rightarrow> (Returned a, p')
        | (None, p') \<Rightarrow> (AtWord (word + 1), p'))"
      by simp
    then show ?thesis ..
  next
    case r: True
    show ?thesis
    proof (cases "v AND push_bit offset kBit1 = 0")
      case False
      from Suc.hyps(1) [OF k, of v] obtain n where
        "Allocate_steps n p (AtBit word v (offset + 1)) =
          (case Allocate_bits p word v (offset + 1) of
             (Some a, p') \<Rightarrow> (Returned a, p') | (None, p') \<Rightarrow> (AtWord (word + 1), p'))"
        by blast
      with False o r have "Allocate_steps (Suc n) p (AtBit word v offset) =
          (case Allocate_bits p word v offset of
             (Some a, p') \<Rightarrow> (Returned a, p') | (None, p') \<Rightarrow> (AtWord (word + 1), p'))"
        by (simp add: Allocate_bits_skip)
      then show ?thesis ..
    next
      case bit0: True
      show ?thesis
      proof (cases "mUsage p word = v")
        case True
        with bit0 o r have "Allocate_steps (Suc (Suc (Suc 0))) p (AtBit word v offset) =
          (case Allocate_bits p word v offset of
             (Some a, p') \<Rightarrow> (Returned a, p') | (None, p') \<Rightarrow> (AtWord (word + 1), p'))"
          by (simp add: Allocate_bits_claim compare_exchange_strong_def At_def IncreaseUsage_def)
        then show ?thesis ..
      next
        case False
        from Suc.hyps(1) [OF k, of "mUsage p word"] obtain n where
          "Allocate_steps n p (AtBit word (mUsage p word) (offset + 1)) =
            (case Allocate_bits p word (mUsage p word) (offset + 1) of
               (Some a, p') \<Rightarrow> (Returned a, p') | (None, p') \<Rightarrow> (AtWord (word + 1), p'))"
          by blast
        with False bit0 o r have "Allocate_steps (Suc (Suc (Suc n))) p (AtBit word v offset) =
          (case Allocate_bits p word v offset of
             (Some a, p') \<Rightarrow> (Returned a, p') | (None, p') \<Rightarrow> (AtWord (word + 1), p'))"
          by (simp add: Allocate_bits_retry compare_exchange_strong_def load_def)
        then show ?thesis ..
      qed
    qed
  qed
qed


lemma Allocate_steps_words:
  fixes p :: "'w::len word StaticAllocatorBitmap"
  shows "\<exists>n. Allocate_steps n p (AtWord word) =
     (case Allocate_words p word of (a, p') \<Rightarrow> (Returned a, p'))"
proof (induction "mCapacity p - word * kBitChunkSize TYPE('w)" arbitrary: word rule: less_induct)
  case less
  show ?case
  proof (cases "word * kBitChunkSize TYPE('w) < mCapacity p")
    case False
    then have "Allocate_steps (Suc 0) p (AtWord word) = (Returned nullptr, p)"
      by simp
    moreover from False have "Allocate_words p word = (nullptr, p)"
      by (subst Allocate_words.simps) simp
    ultimately have "Allocate_steps (Suc 0) p (AtWord word) =
        (case Allocate_words p word of (a, p') \<Rightarrow> (Returned a, p'))"
      by simp
    then show ?thesis ..
  next
    case True
    let ?v = "load (mUsage p) word"
    from True have first: "Allocate_step p (AtWord word) = (AtBit word ?v 0, p)"
      by simp
    obtain n where n: "Allocate_steps n p (AtBit word ?v 0) =
       (case Allocate_bits p word ?v 0 of
          (Some a, p') \<Rightarrow> (Returned a, p')
        | (None, p') \<Rightarrow> (AtWord (word + 1), p'))"
      using Allocate_steps_bits by blast
    obtain r q where b: "Allocate_bits p word ?v 0 = (r, q)"
      by (cases "Allocate_bits p word ?v 0")
    show ?thesis
    proof (cases r)
      case (Some a)
      with b True have "Allocate_words p word = (a, q)"
        by (subst Allocate_words.simps) simp
      with n b Some first have "Allocate_steps (Suc n) p (AtWord word) =
          (case Allocate_words p word of (a, p') \<Rightarrow> (Returned a, p'))"
        by simp
      then show ?thesis ..
    next
      case None
      with b have q: "q = p"
        by (simp add: Allocate_bits_None)
      have "mCapacity p - (word + 1) * kBitChunkSize TYPE('w) < mCapacity p - word * kBitChunkSize TYPE('w)"
        using True by (simp add: kBitChunkSize_def diff_less_mono2)
      from less [OF this] obtain m where m: "Allocate_steps m p (AtWord (word + 1)) =
          (case Allocate_words p (word + 1) of (a, p') \<Rightarrow> (Returned a, p'))"
        by blast
      from b None q True have w: "Allocate_words p word = Allocate_words p (word + 1)"
        by (subst Allocate_words.simps) simp
      have "Allocate_steps (Suc n + m) p (AtWord word) =
          (case Allocate_words p word of (a, p') \<Rightarrow> (Returned a, p'))"
        unfolding Allocate_steps_add using n b None q first m w by simp
      then show ?thesis ..
    qed
  qed
qed

lemma Allocate_steps_Allocate:
  "\<exists>n. \<forall>m\<ge>n. Allocate_steps m p (AtWord 0) = (Returned (fst (Allocate p)), snd (Allocate p))"
proof -
  obtain n where n: "Allocate_steps n p (AtWord 0) =
      (case Allocate_words p 0 of (a, p') \<Rightarrow> (Returned a, p'))"
    using Allocate_steps_words by blast
  have "\<forall>m\<ge>n. Allocate_steps m p (AtWord 0) = (Returned (fst (Allocate p)), snd (Allocate p))"
  proof (intro allI impI)
    fix m assume "n \<le> m"
    then obtain d where "m = n + d"
      using le_iff_add by blast
    with n show "Allocate_steps m p (AtWord 0) = (Returned (fst (Allocate p)), snd (Allocate p))"
      by (simp add: Allocate_steps_add Allocate_def split: prod.splits)
  qed
  then show ?thesis ..
qed

end
